theory Spec2Isabelle
  imports Main "HOL-Library.AList"
begin

section \<open>Data model\<close>

text \<open>
  The solver of \<^verbatim>\<open>Latest_Research.py\<close>. A literal is a Python integer, a clause a list of
  literals, a formula the pair of the declared variable count and the clause list that
  \<^verbatim>\<open>parse_dimacs\<close> returns. An assignment is a Python dictionary from variable ids to
  booleans: an association list in insertion order whose keys are distinct, read with
  \<open>map_of\<close> and written with \<open>AList.update\<close> (an existing key keeps its position, a new
  key goes last, as in a dictionary).
\<close>

type_synonym literal = int
type_synonym clause = "int list"
type_synonym assignment = "(int \<times> bool) list"
type_synonym step = "int \<times> bool \<times> string"

subsection \<open>Text of the decision records\<close>

definition digit_char :: "nat \<Rightarrow> char" where
  "digit_char d = char_of (48 + d)"

fun str_nat :: "nat \<Rightarrow> string" where
  "str_nat n = (if n < 10 then [digit_char n] else str_nat (n div 10) @ [digit_char (n mod 10)])"

declare str_nat.simps [simp del]

definition str_int :: "int \<Rightarrow> string" where
  "str_int i = (if i < 0 then CHR ''-'' # str_nat (nat (- i)) else str_nat (nat i))"

definition str_bool :: "bool \<Rightarrow> string" where
  "str_bool b = (if b then ''True'' else ''False'')"

section \<open>Satisfaction oracle\<close>

text \<open>
  The test that \<^verbatim>\<open>is_clause_satisfied\<close> and \<^verbatim>\<open>get_literal_satisfaction_counts\<close> both
  write inline: the variable is a key of the dictionary and the literal's sign agrees
  with the stored value.
\<close>

definition literal_true :: "assignment \<Rightarrow> literal \<Rightarrow> bool" where
  "literal_true assignment literal =
     (case map_of assignment \<bar>literal\<bar> of
        None \<Rightarrow> False
      | Some val \<Rightarrow> (literal > 0 \<and> val) \<or> (literal < 0 \<and> \<not> val))"

fun is_clause_satisfied :: "clause \<Rightarrow> assignment \<Rightarrow> bool" where
  "is_clause_satisfied [] assignment = False"
| "is_clause_satisfied (literal # rest) assignment =
     (if literal_true assignment literal then True else is_clause_satisfied rest assignment)"

fun count_satisfied_clauses :: "clause list \<Rightarrow> assignment \<Rightarrow> nat" where
  "count_satisfied_clauses [] assignment = 0"
| "count_satisfied_clauses (clause # rest) assignment =
     (if is_clause_satisfied clause assignment then 1 else 0)
       + count_satisfied_clauses rest assignment"

text \<open>
  The counter of true literals per clause index. Every index the solver reads is the
  index of a clause, so the counter is the list of the per-clause counts (a clause with
  no true literal reads 0, as a missing key of a \<^verbatim>\<open>Counter\<close> does).
\<close>

definition get_literal_satisfaction_counts :: "clause list \<Rightarrow> assignment \<Rightarrow> nat list" where
  "get_literal_satisfaction_counts clauses assignment =
     map (\<lambda>clause. length (filter (literal_true assignment) clause)) clauses"

section \<open>Formula loader\<close>

text \<open>
  The source of a formula is either an error raised by \<^verbatim>\<open>open\<close> or the lines of the file.
  Python's \<^verbatim>\<open>int\<close> on a token is a parameter \<open>to_int\<close> of the loader (\<open>None\<close> is a
  \<^verbatim>\<open>ValueError\<close>), so every statement about the loader holds for whatever \<^verbatim>\<open>int\<close>
  accepts. \<open>int_literal\<close> below reads an optional sign followed by decimal digits and
  rejects everything else; it agrees with \<^verbatim>\<open>int\<close> on the tokens of the examples.
\<close>

datatype error = FileNotFoundError | OSError | ValueError | IndexError

definition is_space :: "char \<Rightarrow> bool" where
  "is_space c = (of_char c \<in> {9, 10, 11, 12, 13, 28, 29, 30, 31, 32, 133, 160 :: nat})"

definition strip :: "string \<Rightarrow> string" where
  "strip s = rev (dropWhile is_space (rev (dropWhile is_space s)))"

primrec split_from :: "string \<Rightarrow> string \<Rightarrow> string list" where
  "split_from cur [] = (if cur = [] then [] else [cur])"
| "split_from cur (c # cs) =
     (if is_space c then (if cur = [] then split_from [] cs else cur # split_from [] cs)
      else split_from (cur @ [c]) cs)"

definition split :: "string \<Rightarrow> string list" where
  "split s = split_from [] s"

definition startswith :: "string \<Rightarrow> string \<Rightarrow> bool" where
  "startswith s p = (take (length p) s = p)"

definition is_digit :: "char \<Rightarrow> bool" where
  "is_digit c = (48 \<le> (of_char c :: nat) \<and> (of_char c :: nat) \<le> 57)"

definition digits_value :: "string \<Rightarrow> int" where
  "digits_value ds = foldl (\<lambda>acc c. 10 * acc + (int (of_char c) - 48)) 0 ds"

definition int_literal :: "string \<Rightarrow> int option" where
  "int_literal tok =
     (case tok of
        [] \<Rightarrow> None
      | c # cs \<Rightarrow>
          if c = CHR ''-'' \<or> c = CHR ''+'' then
            (if cs \<noteq> [] \<and> list_all is_digit cs
             then Some (if c = CHR ''-'' then - digits_value cs else digits_value cs)
             else None)
          else if list_all is_digit tok then Some (digits_value tok) else None)"

definition parse_line ::
  "(string \<Rightarrow> int option) \<Rightarrow> int \<times> clause list \<Rightarrow> string \<Rightarrow> error + (int \<times> clause list)" where
  "parse_line to_int acc raw =
     (case acc of (num_variables, clauses) \<Rightarrow>
        let line = strip raw in
        if line = [] \<or> startswith line ''c'' \<or> startswith line ''%'' then Inr (num_variables, clauses)
        else if startswith line ''p cnf'' then
          (let parts = split line in
           if length parts \<le> 2 then Inl IndexError
           else (case to_int (parts ! 2) of
                   None \<Rightarrow> Inl ValueError
                 | Some n \<Rightarrow> Inr (n, clauses)))
        else
          (case those (map to_int (split line)) of
             None \<Rightarrow> Inl ValueError
           | Some ints \<Rightarrow>
               let clause = butlast ints in
               if clause \<noteq> [] then Inr (num_variables, clauses @ [clause])
               else Inr (num_variables, clauses)))"

fun parse_lines ::
  "(string \<Rightarrow> int option) \<Rightarrow> int \<times> clause list \<Rightarrow> string list \<Rightarrow> error + (int \<times> clause list)" where
  "parse_lines to_int acc [] = Inr acc"
| "parse_lines to_int acc (raw # rest) =
     (case parse_line to_int acc raw of
        Inl e \<Rightarrow> Inl e
      | Inr acc' \<Rightarrow> parse_lines to_int acc' rest)"

text \<open>
  Both handlers of \<^verbatim>\<open>parse_dimacs\<close> return \<^verbatim>\<open>0, []\<close>: the one for a missing file and the
  one for every other exception.
\<close>

definition parse_dimacs ::
  "(string \<Rightarrow> int option) \<Rightarrow> error + string list \<Rightarrow> int \<times> clause list" where
  "parse_dimacs to_int file =
     (case file of
        Inl FileNotFoundError \<Rightarrow> (0, [])
      | Inl _ \<Rightarrow> (0, [])
      | Inr lines \<Rightarrow>
          (case parse_lines to_int (0, []) lines of
             Inl FileNotFoundError \<Rightarrow> (0, [])
           | Inl _ \<Rightarrow> (0, [])
           | Inr formula \<Rightarrow> formula))"

section \<open>First pass: greedy heuristic\<close>

text \<open>
  \<^verbatim>\<open>variable_occurrence_map\<close> is a \<^verbatim>\<open>defaultdict(set)\<close>: a total function from literals
  to sets of clause indices, empty where nothing was added.
\<close>

definition variable_occurrence_map :: "clause list \<Rightarrow> literal \<Rightarrow> nat set" where
  "variable_occurrence_map clauses =
     fold (\<lambda>(i, clause) m. fold (\<lambda>literal m'. m'(literal := insert i (m' literal))) clause m)
       (enumerate 0 clauses) (\<lambda>literal. {})"

definition all_unique_vars :: "clause list \<Rightarrow> int list" where
  "all_unique_vars clauses = sort (remdups (map abs (concat clauses)))"

text \<open>
  \<^verbatim>\<open>sorted(..., key=..., reverse=True)\<close> is a stable sort under the reversed comparison
  of the keys: elements of equal key keep their order. It is the stable ascending sort
  by the negated key.
\<close>

definition occurrence_key :: "(literal \<Rightarrow> nat set) \<Rightarrow> int \<Rightarrow> nat" where
  "occurrence_key m x = card (m x) + card (m (- x))"

definition sorted_variables_by_occurrence :: "clause list \<Rightarrow> int list" where
  "sorted_variables_by_occurrence clauses =
     sort_key (\<lambda>x. - int (occurrence_key (variable_occurrence_map clauses) x))
       (all_unique_vars clauses)"

definition positive_reason :: "int \<Rightarrow> nat \<Rightarrow> nat \<Rightarrow> string" where
  "positive_reason var_abs pos_size neg_size =
     ''Chose '' @ str_int var_abs @ '' (positive) because it appears in '' @ str_nat pos_size
       @ '' clauses vs '' @ str_int (- var_abs) @ '' in '' @ str_nat neg_size @ '' clauses''"

definition negative_reason :: "int \<Rightarrow> nat \<Rightarrow> nat \<Rightarrow> string" where
  "negative_reason var_abs pos_size neg_size =
     ''Chose '' @ str_int (- var_abs) @ '' (negative) because it appears in '' @ str_nat neg_size
       @ '' clauses vs '' @ str_int var_abs @ '' in '' @ str_nat pos_size @ '' clauses''"

definition greedy_assign ::
  "(literal \<Rightarrow> nat set) \<Rightarrow> int \<Rightarrow> assignment \<times> step list \<Rightarrow> assignment \<times> step list" where
  "greedy_assign m var_abs acc =
     (case acc of (set_variables, assignment_steps) \<Rightarrow>
        if map_of set_variables var_abs \<noteq> None then (set_variables, assignment_steps)
        else
          let pos_size = card (m var_abs);
              neg_size = card (m (- var_abs));
              chosen_literal = (if pos_size \<ge> neg_size then var_abs else - var_abs);
              reason = (if pos_size \<ge> neg_size then positive_reason var_abs pos_size neg_size
                        else negative_reason var_abs pos_size neg_size)
          in (AList.update var_abs (chosen_literal > 0) set_variables,
              assignment_steps @ [(var_abs, chosen_literal > 0, reason)]))"

definition greedy_first_pass :: "clause list \<Rightarrow> assignment \<times> step list" where
  "greedy_first_pass clauses =
     fold (greedy_assign (variable_occurrence_map clauses))
       (sorted_variables_by_occurrence clauses) ([], [])"

section \<open>Second pass: local search\<close>

type_synonym candidate = "int \<times> bool \<times> int \<times> nat"

record refiner_state =
  best_assignment :: assignment
  max_satisfied_count :: nat
  second_pass_steps :: "step list"

definition unsatisfied_clause_indices :: "clause list \<Rightarrow> assignment \<Rightarrow> nat list" where
  "unsatisfied_clause_indices clauses assignment =
     map fst (filter (\<lambda>(i, clause). \<not> is_clause_satisfied clause assignment) (enumerate 0 clauses))"

text \<open>
  \<^verbatim>\<open>random.choice\<close> on a non-empty sequence returns one of its elements; \<open>draw\<close> is the
  number the generator supplies for it. The solver calls it on a non-empty list only.
\<close>

definition random_choice :: "nat \<Rightarrow> nat list \<Rightarrow> nat" where
  "random_choice draw seq = seq ! (draw mod length seq)"

definition flip_multiset_cost ::
  "clause list \<Rightarrow> assignment \<Rightarrow> assignment \<Rightarrow> literal option \<Rightarrow> nat list \<Rightarrow> nat" where
  "flip_multiset_cost clauses assignment temp_assignment literal_that_was_true_before_flip counts =
     length (filter
       (\<lambda>(i, c). is_clause_satisfied c assignment \<and> \<not> is_clause_satisfied c temp_assignment
          \<and> (case literal_that_was_true_before_flip of None \<Rightarrow> False | Some l \<Rightarrow> l \<in> set c)
          \<and> counts ! i = 1)
       (enumerate 0 clauses))"

definition evaluate_candidate ::
  "clause list \<Rightarrow> assignment \<Rightarrow> nat \<Rightarrow> nat list \<Rightarrow> literal \<Rightarrow> candidate" where
  "evaluate_candidate clauses assignment current_count counts literal_in_clause =
     (let var_to_flip_abs = \<bar>literal_in_clause\<bar>;
          hypothetical_val_for_literal = (literal_in_clause > 0);
          temp_assignment = AList.update var_to_flip_abs hypothetical_val_for_literal assignment;
          new_satisfied_count = count_satisfied_clauses clauses temp_assignment;
          net_gain = int new_satisfied_count - int current_count;
          literal_that_was_true_before_flip =
            (case map_of assignment var_to_flip_abs of
               None \<Rightarrow> None
             | Some original_val_of_var \<Rightarrow>
                 Some (if original_val_of_var then var_to_flip_abs else - var_to_flip_abs))
      in (var_to_flip_abs, hypothetical_val_for_literal, net_gain,
          flip_multiset_cost clauses assignment temp_assignment
            literal_that_was_true_before_flip counts))"

text \<open>
  The running best candidate. \<open>None\<close> is the state before the first literal: no
  variable, net gain \<^verbatim>\<open>-inf\<close> and cost \<^verbatim>\<open>inf\<close>, which every candidate beats.
\<close>

definition consider_candidate :: "candidate option \<Rightarrow> candidate \<Rightarrow> candidate option" where
  "consider_candidate best cand =
     (case best of
        None \<Rightarrow> Some cand
      | Some (best_var, best_val, best_net_gain, best_multiset_cost) \<Rightarrow>
          (case cand of (var, val, net_gain, multiset_cost) \<Rightarrow>
             if net_gain > best_net_gain then Some cand
             else if net_gain = best_net_gain then
               (if multiset_cost < best_multiset_cost then Some cand else best)
             else best))"

definition select_flip ::
  "clause list \<Rightarrow> assignment \<Rightarrow> nat \<Rightarrow> clause \<Rightarrow> candidate option" where
  "select_flip clauses assignment current_count target_clause =
     foldl (\<lambda>best literal_in_clause.
              consider_candidate best
                (evaluate_candidate clauses assignment current_count
                   (get_literal_satisfaction_counts clauses assignment) literal_in_clause))
       None target_clause"

definition flip_reason :: "int \<Rightarrow> bool \<Rightarrow> nat \<Rightarrow> int \<Rightarrow> nat \<Rightarrow> string" where
  "flip_reason var val target_clause_idx net_gain multiset_cost =
     ''Flipped '' @ str_int var @ '' to '' @ str_bool val @ '' to target clause ''
       @ str_nat target_clause_idx @ '' (net gain: '' @ str_int net_gain
       @ '', multiset cost: '' @ str_nat multiset_cost @ '')''"

definition accepts :: "clause \<Rightarrow> assignment \<Rightarrow> candidate \<Rightarrow> bool" where
  "accepts target_clause assignment cand =
     (case cand of (var, val, net_gain, multiset_cost) \<Rightarrow>
        net_gain > 0 \<or>
        (net_gain = 0 \<and> \<not> is_clause_satisfied target_clause assignment
           \<and> is_clause_satisfied target_clause (AList.update var val assignment)))"

definition apply_flip :: "clause list \<Rightarrow> nat \<Rightarrow> candidate \<Rightarrow> refiner_state \<Rightarrow> refiner_state" where
  "apply_flip clauses target_clause_idx cand st =
     (case cand of (var, val, net_gain, multiset_cost) \<Rightarrow>
        let assignment' = AList.update var val (best_assignment st) in
        \<lparr> best_assignment = assignment',
          max_satisfied_count = count_satisfied_clauses clauses assignment',
          second_pass_steps = second_pass_steps st
            @ [(var, val, flip_reason var val target_clause_idx net_gain multiset_cost)] \<rparr>)"

definition refine_iteration ::
  "nat \<Rightarrow> clause list \<Rightarrow> nat list \<Rightarrow> refiner_state \<Rightarrow> refiner_state" where
  "refine_iteration draw clauses unsatisfied st =
     (let target_clause_idx = random_choice draw unsatisfied;
          target_clause = clauses ! target_clause_idx
      in case select_flip clauses (best_assignment st) (max_satisfied_count st) target_clause of
           None \<Rightarrow> st
         | Some cand \<Rightarrow>
             if accepts target_clause (best_assignment st) cand
             then apply_flip clauses target_clause_idx cand st
             else st)"

text \<open>
  The loop \<^verbatim>\<open>for flip_count in range(max_flips)\<close> with its \<^verbatim>\<open>break\<close>. The result is the
  number of iterations that went past the \<^verbatim>\<open>break\<close> test (the flip attempts) and the
  final state. \<open>rnd k\<close> is the generator's draw in iteration \<open>k\<close>.
\<close>

function local_search ::
  "(nat \<Rightarrow> nat) \<Rightarrow> clause list \<Rightarrow> nat \<Rightarrow> nat \<Rightarrow> refiner_state \<Rightarrow> nat \<times> refiner_state" where
  "local_search rnd clauses max_flips flip_count st =
     (if flip_count < max_flips then
        (if unsatisfied_clause_indices clauses (best_assignment st) = [] then (flip_count, st)
         else local_search rnd clauses max_flips (Suc flip_count)
                (refine_iteration (rnd flip_count) clauses
                   (unsatisfied_clause_indices clauses (best_assignment st)) st))
      else (flip_count, st))"
  by pat_completeness auto
termination
  by (relation "measure (\<lambda>(rnd, clauses, max_flips, flip_count, st). max_flips - flip_count)") auto

declare local_search.simps [simp del]

section \<open>The solver\<close>

record solve_result =
  is_satisfiable :: bool
  final_assignment :: "assignment option"
  satisfied_count :: nat
  steps :: "step list"

definition max_flips_of :: "int \<Rightarrow> nat" where
  "max_flips_of num_variables = nat (if num_variables > 0 then num_variables * 5 else 50)"

definition initial_state :: "clause list \<Rightarrow> refiner_state" where
  "initial_state clauses =
     \<lparr> best_assignment = fst (greedy_first_pass clauses),
       max_satisfied_count = count_satisfied_clauses clauses (fst (greedy_first_pass clauses)),
       second_pass_steps = [] \<rparr>"

definition refine :: "(nat \<Rightarrow> nat) \<Rightarrow> int \<Rightarrow> clause list \<Rightarrow> nat \<times> refiner_state" where
  "refine rnd num_variables clauses =
     local_search rnd clauses (max_flips_of num_variables) 0 (initial_state clauses)"

definition solve_formula :: "(nat \<Rightarrow> nat) \<Rightarrow> int \<times> clause list \<Rightarrow> solve_result" where
  "solve_formula rnd formula =
     (case formula of (num_variables, clauses) \<Rightarrow>
        if clauses = [] then
          \<lparr> is_satisfiable = False, final_assignment = Some [], satisfied_count = 0, steps = [] \<rparr>
        else
          let assignment_steps = snd (greedy_first_pass clauses);
              st = snd (refine rnd num_variables clauses);
              final_satisfied_count = count_satisfied_clauses clauses (best_assignment st)
          in if final_satisfied_count = length clauses then
               \<lparr> is_satisfiable = True, final_assignment = Some (best_assignment st),
                 satisfied_count = length clauses,
                 steps = assignment_steps @ second_pass_steps st \<rparr>
             else
               \<lparr> is_satisfiable = False, final_assignment = None,
                 satisfied_count = final_satisfied_count,
                 steps = assignment_steps @ second_pass_steps st \<rparr>)"

definition solve_3sat ::
  "(nat \<Rightarrow> nat) \<Rightarrow> (string \<Rightarrow> int option) \<Rightarrow> error + string list \<Rightarrow> solve_result" where
  "solve_3sat rnd to_int file = solve_formula rnd (parse_dimacs to_int file)"

text \<open>A generator whose every draw is 0: it picks the first unsatisfied clause.\<close>

definition first_choice :: "nat \<Rightarrow> nat" where
  "first_choice k = 0"

text \<open>
  The refiner caches the satisfied-clause count of the working assignment in
  \<^verbatim>\<open>max_satisfied_count\<close>; \<open>count_cached\<close> says that the cache is current.
\<close>

definition count_cached :: "clause list \<Rightarrow> refiner_state \<Rightarrow> bool" where
  "count_cached clauses st \<longleftrightarrow>
     max_satisfied_count st = count_satisfied_clauses clauses (best_assignment st)"

text \<open>The net gain and the multiset cost of a flip candidate.\<close>

definition net_gain_of :: "candidate \<Rightarrow> int" where
  "net_gain_of cand = (case cand of (var, val, net_gain, multiset_cost) \<Rightarrow> net_gain)"

definition multiset_cost_of :: "candidate \<Rightarrow> nat" where
  "multiset_cost_of cand = (case cand of (var, val, net_gain, multiset_cost) \<Rightarrow> multiset_cost)"

text \<open>
  The candidate that one pass of the loop over the target clause's literals computes for
  the literal \<open>l\<close> in the state \<open>st\<close>.
\<close>

definition candidate_of :: "clause list \<Rightarrow> refiner_state \<Rightarrow> literal \<Rightarrow> candidate" where
  "candidate_of clauses st l =
     evaluate_candidate clauses (best_assignment st) (max_satisfied_count st)
       (get_literal_satisfaction_counts clauses (best_assignment st)) l"

text \<open>
  The state after \<open>n\<close> passes through the body of the refiner's loop, the first of them
  with the loop variable at \<open>flip_count\<close>: each pass computes the unsatisfied clause
  indices of the working assignment and runs \<open>refine_iteration\<close> on them.
\<close>

fun run_iterations ::
  "(nat \<Rightarrow> nat) \<Rightarrow> clause list \<Rightarrow> nat \<Rightarrow> nat \<Rightarrow> refiner_state \<Rightarrow> refiner_state" where
  "run_iterations rnd clauses flip_count 0 st = st"
| "run_iterations rnd clauses flip_count (Suc n) st =
     run_iterations rnd clauses (Suc flip_count) n
       (refine_iteration (rnd flip_count) clauses
          (unsatisfied_clause_indices clauses (best_assignment st)) st)"

text \<open>
  The value and the justification that the greedy pass records for a variable, as
  functions of the occurrence map.
\<close>

definition greedy_value :: "(literal \<Rightarrow> nat set) \<Rightarrow> int \<Rightarrow> bool" where
  "greedy_value m var_abs =
     ((if card (m var_abs) \<ge> card (m (- var_abs)) then var_abs else - var_abs) > 0)"

definition greedy_reason :: "(literal \<Rightarrow> nat set) \<Rightarrow> int \<Rightarrow> string" where
  "greedy_reason m var_abs =
     (if card (m var_abs) \<ge> card (m (- var_abs))
      then positive_reason var_abs (card (m var_abs)) (card (m (- var_abs)))
      else negative_reason var_abs (card (m var_abs)) (card (m (- var_abs))))"

section \<open>Facts about the oracle and the refiner\<close>

lemma is_clause_satisfied_ex:
  "is_clause_satisfied clause a \<longleftrightarrow> (\<exists>l \<in> set clause. literal_true a l)"
  by (induction clause) auto

lemma count_satisfied_clauses_filter:
  "count_satisfied_clauses clauses a = length (filter (\<lambda>c. is_clause_satisfied c a) clauses)"
  by (induction clauses) auto

lemma count_satisfied_clauses_le: "count_satisfied_clauses clauses a \<le> length clauses"
  by (simp add: count_satisfied_clauses_filter)

lemma count_satisfied_clauses_all:
  "count_satisfied_clauses clauses a = length clauses \<longleftrightarrow> (\<forall>c \<in> set clauses. is_clause_satisfied c a)"
  unfolding count_satisfied_clauses_filter
  by (metis filter_True length_filter_less less_irrefl_nat filter_id_conv)

lemma unsatisfied_clause_indices_empty:
  "unsatisfied_clause_indices clauses a = [] \<longleftrightarrow> (\<forall>c \<in> set clauses. is_clause_satisfied c a)"
proof -
  have "unsatisfied_clause_indices clauses a = [] \<longleftrightarrow>
        (\<forall>p \<in> set (enumerate 0 clauses). is_clause_satisfied (snd p) a)"
    by (auto simp: unsatisfied_clause_indices_def filter_empty_conv)
  also have "\<dots> \<longleftrightarrow> (\<forall>c \<in> set clauses. is_clause_satisfied c a)"
    by (metis (no_types, lifting) image_iff map_snd_enumerate set_map)
  finally show ?thesis .
qed

lemma foldl_consider_candidate_Some:
  "foldl consider_candidate (Some b) cands \<noteq> None"
  by (induction cands arbitrary: b) (auto simp: consider_candidate_def split: prod.splits)

lemma foldl_consider_candidate_mem:
  "foldl consider_candidate best cands = Some c \<Longrightarrow> best = Some c \<or> c \<in> set cands"
proof (induction cands arbitrary: best)
  case Nil
  then show ?case by simp
next
  case (Cons x xs)
  from Cons.IH[OF Cons.prems[simplified]]
  show ?case
    by (auto simp: consider_candidate_def split: option.splits prod.splits if_splits)
qed

lemma select_flip_foldl:
  "select_flip clauses a cur target =
     foldl consider_candidate None
       (map (evaluate_candidate clauses a cur (get_literal_satisfaction_counts clauses a)) target)"
  by (simp add: select_flip_def foldl_map)

lemma select_flip_evaluated:
  assumes "select_flip clauses a cur target = Some cand"
  shows "\<exists>l \<in> set target. cand = evaluate_candidate clauses a cur (get_literal_satisfaction_counts clauses a) l"
  using foldl_consider_candidate_mem[OF assms[unfolded select_flip_foldl]] by auto

lemma select_flip_net_gain:
  assumes "select_flip clauses a cur target = Some (var, val, net_gain, cost)"
  shows "net_gain = int (count_satisfied_clauses clauses (AList.update var val a)) - int cur"
  using select_flip_evaluated[OF assms] by (auto simp: evaluate_candidate_def Let_def)

lemma refine_iteration_cached:
  "count_cached clauses st \<Longrightarrow> count_cached clauses (refine_iteration draw clauses unsat st)"
  by (auto simp: count_cached_def refine_iteration_def apply_flip_def Let_def split: option.splits prod.splits)

lemma refine_iteration_mono:
  assumes "count_cached clauses st"
  shows "count_satisfied_clauses clauses (best_assignment st)
           \<le> count_satisfied_clauses clauses (best_assignment (refine_iteration draw clauses unsat st))"
proof (cases "select_flip clauses (best_assignment st) (max_satisfied_count st)
                (clauses ! random_choice draw unsat)")
  case None
  then show ?thesis by (simp add: refine_iteration_def)
next
  case (Some cand)
  obtain var val g cost where c: "cand = (var, val, g, cost)" by (cases cand) auto
  from select_flip_net_gain[OF Some[unfolded c]] assms
  have g: "g = int (count_satisfied_clauses clauses (AList.update var val (best_assignment st)))
             - int (count_satisfied_clauses clauses (best_assignment st))"
    by (simp add: count_cached_def)
  show ?thesis using Some g
    by (auto simp: refine_iteration_def c accepts_def apply_flip_def Let_def)
qed

lemma local_search_bounds:
  "flip_count \<le> max_flips \<Longrightarrow>
   flip_count \<le> fst (local_search rnd clauses max_flips flip_count st) \<and>
   fst (local_search rnd clauses max_flips flip_count st) \<le> max_flips \<and>
   (fst (local_search rnd clauses max_flips flip_count st) < max_flips \<longrightarrow>
      unsatisfied_clause_indices clauses
        (best_assignment (snd (local_search rnd clauses max_flips flip_count st))) = [])"
proof (induction rnd clauses max_flips flip_count st rule: local_search.induct)
  case (1 rnd clauses max_flips flip_count st)
  show ?case
  proof (cases "flip_count < max_flips")
    case False
    then show ?thesis using "1.prems" by (simp add: local_search.simps)
  next
    case True
    show ?thesis
    proof (cases "unsatisfied_clause_indices clauses (best_assignment st) = []")
      case e: True
      then show ?thesis using True by (simp add: local_search.simps)
    next
      case ne: False
      from "1.IH"[OF True ne] True
      show ?thesis
        by (subst (1 2 3 4) local_search.simps) (use True ne in auto)
    qed
  qed
qed

lemma local_search_mono:
  "count_cached clauses st \<Longrightarrow>
   count_cached clauses (snd (local_search rnd clauses max_flips flip_count st)) \<and>
   count_satisfied_clauses clauses (best_assignment st)
     \<le> count_satisfied_clauses clauses
          (best_assignment (snd (local_search rnd clauses max_flips flip_count st)))"
proof (induction rnd clauses max_flips flip_count st rule: local_search.induct)
  case (1 rnd clauses max_flips flip_count st)
  show ?case
  proof (cases "flip_count < max_flips \<and> unsatisfied_clause_indices clauses (best_assignment st) \<noteq> []")
    case False
    then show ?thesis using "1.prems" by (auto simp: local_search.simps)
  next
    case True
    let ?st' = "refine_iteration (rnd flip_count) clauses
                   (unsatisfied_clause_indices clauses (best_assignment st)) st"
    have c': "count_cached clauses ?st'" using "1.prems" by (rule refine_iteration_cached)
    have m: "count_satisfied_clauses clauses (best_assignment st)
           \<le> count_satisfied_clauses clauses (best_assignment ?st')"
      using "1.prems" by (rule refine_iteration_mono)
    have eq: "local_search rnd clauses max_flips flip_count st
            = local_search rnd clauses max_flips (Suc flip_count) ?st'"
      using True by (subst local_search.simps) simp
    from "1.IH"[OF _ _ c'] True m show ?thesis unfolding eq by auto
  qed
qed

lemma local_search_iterates:
  "flip_count \<le> max_flips \<Longrightarrow>
   flip_count \<le> fst (local_search rnd clauses max_flips flip_count st)
   \<and> fst (local_search rnd clauses max_flips flip_count st) \<le> max_flips
   \<and> snd (local_search rnd clauses max_flips flip_count st)
       = run_iterations rnd clauses flip_count
           (fst (local_search rnd clauses max_flips flip_count st) - flip_count) st
   \<and> (\<forall>j < fst (local_search rnd clauses max_flips flip_count st) - flip_count.
         unsatisfied_clause_indices clauses
           (best_assignment (run_iterations rnd clauses flip_count j st)) \<noteq> [])
   \<and> (fst (local_search rnd clauses max_flips flip_count st) < max_flips \<longrightarrow>
        unsatisfied_clause_indices clauses
          (best_assignment (snd (local_search rnd clauses max_flips flip_count st))) = [])"
proof (induction rnd clauses max_flips flip_count st rule: local_search.induct)
  case (1 rnd clauses max_flips flip_count st)
  show ?case
  proof (cases "flip_count < max_flips")
    case False
    then show ?thesis using "1.prems" by (simp add: local_search.simps)
  next
    case True
    show ?thesis
    proof (cases "unsatisfied_clause_indices clauses (best_assignment st) = []")
      case e: True
      then show ?thesis using True by (simp add: local_search.simps)
    next
      case ne: False
      let ?st' = "refine_iteration (rnd flip_count) clauses
                   (unsatisfied_clause_indices clauses (best_assignment st)) st"
      let ?r = "local_search rnd clauses max_flips (Suc flip_count) ?st'"
      have eq: "local_search rnd clauses max_flips flip_count st = ?r"
        using True ne by (subst local_search.simps) simp
      from True have le: "Suc flip_count \<le> max_flips" by simp
      note ih = "1.IH"[OF True ne le]
      from ih have b: "Suc flip_count \<le> fst ?r" "fst ?r \<le> max_flips" by blast+
      then have d: "fst ?r - flip_count = Suc (fst ?r - Suc flip_count)" by simp
      from ih have s: "snd ?r = run_iterations rnd clauses (Suc flip_count)
                                  (fst ?r - Suc flip_count) ?st'" by blast
      from ih have u: "\<forall>j < fst ?r - Suc flip_count.
         unsatisfied_clause_indices clauses
           (best_assignment (run_iterations rnd clauses (Suc flip_count) j ?st')) \<noteq> []" by blast
      from ih have f: "fst ?r < max_flips \<longrightarrow>
        unsatisfied_clause_indices clauses (best_assignment (snd ?r)) = []" by blast
      have u': "\<forall>j < fst ?r - flip_count.
         unsatisfied_clause_indices clauses
           (best_assignment (run_iterations rnd clauses flip_count j st)) \<noteq> []"
      proof (intro allI impI)
        fix j assume j: "j < fst ?r - flip_count"
        show "unsatisfied_clause_indices clauses
           (best_assignment (run_iterations rnd clauses flip_count j st)) \<noteq> []"
        proof (cases j)
          case 0
          then show ?thesis using ne by simp
        next
          case (Suc j')
          with j d have "j' < fst ?r - Suc flip_count" by simp
          with u show ?thesis unfolding Suc by simp
        qed
      qed
      have s': "snd ?r = run_iterations rnd clauses flip_count (fst ?r - flip_count) st"
        unfolding d using s by simp
      from b have "flip_count \<le> fst ?r" by simp
      with b(2) s' u' f show ?thesis unfolding eq by blast
    qed
  qed
qed

section \<open>The satisfaction oracle on partial assignments\<close>

text \<open>
  Claim C9. For every clause and every assignment, \<open>is_clause_satisfied\<close> is true exactly
  when some literal of the clause has its variable present in the assignment with the
  value its sign asks for (true for a positive literal, false for a negative one). In
  particular a clause all of whose variables are absent is unsatisfied.
\<close>

theorem is_clause_satisfied_iff:
  "(is_clause_satisfied clause assignment \<longleftrightarrow>
      (\<exists>literal \<in> set clause.
         (literal > 0 \<and> map_of assignment \<bar>literal\<bar> = Some True) \<or>
         (literal < 0 \<and> map_of assignment \<bar>literal\<bar> = Some False)))
   \<and> ((\<forall>literal \<in> set clause. map_of assignment \<bar>literal\<bar> = None)
        \<longrightarrow> \<not> is_clause_satisfied clause assignment)"
proof -
  have t: "literal_true assignment l \<longleftrightarrow>
        (l > 0 \<and> map_of assignment \<bar>l\<bar> = Some True) \<or> (l < 0 \<and> map_of assignment \<bar>l\<bar> = Some False)"
    for l
    by (auto simp: literal_true_def split: option.splits)
  show ?thesis
    unfolding is_clause_satisfied_ex t by auto
qed

theorem is_clause_satisfied_iff_witness:
  "is_clause_satisfied [1, - 2] [(2, False)]
   \<and> map_of [(2, False)] \<bar>3 :: int\<bar> = None \<and> map_of [(2, False)] \<bar>- 4 :: int\<bar> = None
   \<and> \<not> is_clause_satisfied [3, - 4] [(2, False)]"
  using is_clause_satisfied_iff[of "[1, - 2]" "[(2, False)]"]
        is_clause_satisfied_iff[of "[3, - 4]" "[(2, False)]"]
  by simp

section \<open>The verdict of the solver\<close>

text \<open>
  Claim C1. For a formula with at least one clause, the solver reports satisfiable and
  returns the final assignment exactly when the satisfied-clause count of the final
  assignment equals the number of clauses (that is, when every clause is satisfied);
  otherwise it reports unsatisfiable, the final count, and no assignment.
\<close>

theorem solve_3sat_verdict:
  assumes "parse_dimacs to_int file = (num_variables, clauses)" and "clauses \<noteq> []"
  shows "(count_satisfied_clauses clauses (best_assignment (snd (refine rnd num_variables clauses)))
            = length clauses
          \<longrightarrow> is_satisfiable (solve_3sat rnd to_int file)
              \<and> final_assignment (solve_3sat rnd to_int file)
                  = Some (best_assignment (snd (refine rnd num_variables clauses)))
              \<and> satisfied_count (solve_3sat rnd to_int file) = length clauses)
       \<and> (count_satisfied_clauses clauses (best_assignment (snd (refine rnd num_variables clauses)))
            \<noteq> length clauses
          \<longrightarrow> \<not> is_satisfiable (solve_3sat rnd to_int file)
              \<and> final_assignment (solve_3sat rnd to_int file) = None
              \<and> satisfied_count (solve_3sat rnd to_int file)
                  = count_satisfied_clauses clauses
                      (best_assignment (snd (refine rnd num_variables clauses))))
       \<and> (is_satisfiable (solve_3sat rnd to_int file) \<longleftrightarrow>
            (\<forall>clause \<in> set clauses.
               is_clause_satisfied clause (best_assignment (snd (refine rnd num_variables clauses)))))"
  using assms
  by (simp add: solve_3sat_def solve_formula_def Let_def count_satisfied_clauses_all)

theorem solve_3sat_verdict_witness:
  "parse_dimacs int_literal (Inr [''p cnf 1 2'', ''1 0'', ''-1 0'']) = (1, [[1], [- 1]])
   \<and> \<not> is_satisfiable (solve_3sat first_choice int_literal (Inr [''p cnf 1 2'', ''1 0'', ''-1 0'']))
   \<and> final_assignment (solve_3sat first_choice int_literal (Inr [''p cnf 1 2'', ''1 0'', ''-1 0''])) = None
   \<and> satisfied_count (solve_3sat first_choice int_literal (Inr [''p cnf 1 2'', ''1 0'', ''-1 0''])) = 1"
proof -
  have p: "parse_dimacs int_literal (Inr [''p cnf 1 2'', ''1 0'', ''-1 0'']) = (1, [[1], [- 1]])"
    by code_simp
  have ne: "[[1], [- 1 :: int]] \<noteq> []" by simp
  have c: "count_satisfied_clauses [[1], [- 1]]
          (best_assignment (snd (refine first_choice 1 [[1], [- 1]]))) = 1"
    by code_simp
  from solve_3sat_verdict[OF p ne, of first_choice] c p show ?thesis by simp
qed

section \<open>The refiner: monotonicity, budget and acceptance\<close>

lemma initial_state_cached: "count_cached clauses (initial_state clauses)"
  by (simp add: count_cached_def initial_state_def)

lemma accepts_nonneg: "accepts target a (var, val, net_gain, cost) \<Longrightarrow> 0 \<le> net_gain"
  by (auto simp: accepts_def)

lemma solve_formula_count_ge:
  "count_satisfied_clauses clauses (fst (greedy_first_pass clauses))
     \<le> satisfied_count (solve_formula rnd (num_variables, clauses))"
proof (cases "clauses = []")
  case True
  then show ?thesis by (simp add: solve_formula_def)
next
  case False
  have "count_satisfied_clauses clauses (best_assignment (initial_state clauses))
          \<le> count_satisfied_clauses clauses (best_assignment (snd (refine rnd num_variables clauses)))"
    unfolding refine_def using local_search_mono[OF initial_state_cached] by blast
  then show ?thesis using False
    by (simp add: solve_formula_def Let_def initial_state_def)
qed

text \<open>
  Claim C10. The satisfied-clause count never decreases during refinement. The cached
  count is current in the state the construction hands over and stays current; every
  accepted flip has net gain at least 0; after every refiner iteration the number of
  satisfied clauses is at least what it was before; and the count that the solver
  reports is at least the count of the construction heuristic's assignment.
\<close>

theorem refinement_monotone:
  "count_cached clauses (initial_state clauses)
   \<and> (\<forall>target a var val net_gain cost.
         accepts target a (var, val, net_gain, cost) \<longrightarrow> 0 \<le> net_gain)
   \<and> (\<forall>st draw unsatisfied.
         count_cached clauses st \<longrightarrow>
           count_cached clauses (refine_iteration draw clauses unsatisfied st)
           \<and> count_satisfied_clauses clauses (best_assignment st)
               \<le> count_satisfied_clauses clauses
                    (best_assignment (refine_iteration draw clauses unsatisfied st)))
   \<and> count_satisfied_clauses clauses (fst (greedy_first_pass clauses))
       \<le> satisfied_count (solve_formula rnd (num_variables, clauses))"
  using initial_state_cached accepts_nonneg refine_iteration_cached refine_iteration_mono
    solve_formula_count_ge
  by blast

theorem refinement_monotone_witness:
  "count_cached [[1], [- 1]] (initial_state [[1], [- 1]])
   \<and> accepts [- 1] [(1, True)] (1, False, 0, 0) \<and> (0 :: int) \<le> 0
   \<and> count_cached [[1], [- 1]] (refine_iteration 0 [[1], [- 1]] [1] (initial_state [[1], [- 1]]))
   \<and> count_satisfied_clauses [[1], [- 1]] (best_assignment (initial_state [[1], [- 1]]))
       \<le> count_satisfied_clauses [[1], [- 1]]
            (best_assignment (refine_iteration 0 [[1], [- 1]] [1] (initial_state [[1], [- 1]])))
   \<and> count_satisfied_clauses [[1], [- 1]] (fst (greedy_first_pass [[1], [- 1]]))
       \<le> satisfied_count (solve_formula first_choice (1, [[1], [- 1]]))"
proof -
  have a: "accepts [- 1] [(1, True)] (1, False, 0, 0)"
    by (simp add: accepts_def literal_true_def)
  from refinement_monotone[of "[[1], [- 1]]" first_choice 1] a show ?thesis by blast
qed

text \<open>
  Claim C8. The refiner's budget is \<open>5 * N\<close> flip attempts when \<open>N > 0\<close> and 50 when
  \<open>N = 0\<close>. The number of iterations it performs is at most the budget; its final state
  is the state after exactly that many passes through the loop body, each of them started
  with some clause unsatisfied; and it performs fewer iterations than the budget only
  when no clause is unsatisfied under the final assignment.
\<close>

theorem refiner_budget:
  "(num_variables > 0 \<longrightarrow> max_flips_of num_variables = nat (5 * num_variables))
   \<and> (num_variables = 0 \<longrightarrow> max_flips_of num_variables = 50)
   \<and> fst (refine rnd num_variables clauses) \<le> max_flips_of num_variables
   \<and> snd (refine rnd num_variables clauses)
       = run_iterations rnd clauses 0 (fst (refine rnd num_variables clauses))
           (initial_state clauses)
   \<and> (\<forall>j < fst (refine rnd num_variables clauses).
         unsatisfied_clause_indices clauses
           (best_assignment (run_iterations rnd clauses 0 j (initial_state clauses))) \<noteq> [])
   \<and> (fst (refine rnd num_variables clauses) < max_flips_of num_variables \<longrightarrow>
        unsatisfied_clause_indices clauses
          (best_assignment (snd (refine rnd num_variables clauses))) = [])"
proof -
  have m: "(num_variables > 0 \<longrightarrow> max_flips_of num_variables = nat (5 * num_variables))
   \<and> (num_variables = 0 \<longrightarrow> max_flips_of num_variables = 50)"
    by (simp add: max_flips_of_def mult.commute)
  have z: "(0 :: nat) \<le> max_flips_of num_variables" by simp
  note ls = local_search_iterates[OF z, of rnd clauses "initial_state clauses", unfolded diff_zero]
  from ls m show ?thesis unfolding refine_def by blast
qed

theorem refiner_budget_witness:
  "max_flips_of 1 = nat (5 * 1)
   \<and> fst (refine first_choice 1 [[1], [- 1]]) = 5
   \<and> best_assignment (snd (refine first_choice 1 [[1], [- 1]])) = [(1, False)]
   \<and> best_assignment (run_iterations first_choice [[1], [- 1]] 0 5 (initial_state [[1], [- 1]]))
       = [(1, False)]
   \<and> length (second_pass_steps (snd (refine first_choice 1 [[1], [- 1]]))) = 5
   \<and> unsatisfied_clause_indices [[1], [- 1]]
        (best_assignment (run_iterations first_choice [[1], [- 1]] 0 4 (initial_state [[1], [- 1]])))
       = [1]
   \<and> max_flips_of 0 = 50
   \<and> fst (refine first_choice 0 [[1]]) = 0
   \<and> unsatisfied_clause_indices [[1]] (best_assignment (snd (refine first_choice 0 [[1]]))) = []"
proof -
  let ?cl = "[[1], [- 1 :: int]]"
  have a: "fst (refine first_choice 1 ?cl) = 5" by code_simp
  have b: "fst (refine first_choice 0 [[1]]) = 0" by code_simp
  have r: "best_assignment (run_iterations first_choice ?cl 0 5 (initial_state ?cl)) = [(1, False)]"
    "length (second_pass_steps (run_iterations first_choice ?cl 0 5 (initial_state ?cl))) = 5"
    "unsatisfied_clause_indices ?cl
        (best_assignment (run_iterations first_choice ?cl 0 4 (initial_state ?cl))) = [1]"
    by code_simp+
  note t1 = refiner_budget[of 1 first_choice ?cl, unfolded a]
  note t2 = refiner_budget[of 0 first_choice "[[1]]", unfolded b]
  from t1 have s: "snd (refine first_choice 1 ?cl)
                     = run_iterations first_choice ?cl 0 5 (initial_state ?cl)" by blast
  from t1 have m1: "max_flips_of 1 = nat (5 * 1)" by simp
  from t2 have m0: "max_flips_of 0 = 50" by simp
  then have lt: "(0 :: nat) < max_flips_of 0" by simp
  from t2 lt have u: "unsatisfied_clause_indices [[1]]
                     (best_assignment (snd (refine first_choice 0 [[1]]))) = []" by blast
  from a b r m1 m0 u show ?thesis unfolding s by blast
qed

text \<open>
  Claim C2. In every refiner iteration (budget left, some clause unsatisfied) the
  selected flip is applied exactly when its net gain is positive, or it is zero and the
  target clause is unsatisfied under the current assignment and satisfied under the
  flipped one. Otherwise, and when there is no candidate, the state is unchanged. In
  both cases the iteration uses one unit of the budget: the loop goes on from the
  resulting state with the next value of \<open>flip_count\<close>, the number of iterations it
  reports counts this one, and its final state is reached from the resulting state by
  the remaining iterations.
\<close>

theorem acceptance_rule:
  assumes "flip_count < max_flips"
    and "unsatisfied_clause_indices clauses (best_assignment st) \<noteq> []"
    and "target_clause_idx =
           random_choice (rnd flip_count) (unsatisfied_clause_indices clauses (best_assignment st))"
    and "st' = refine_iteration (rnd flip_count) clauses
                 (unsatisfied_clause_indices clauses (best_assignment st)) st"
  shows "local_search rnd clauses max_flips flip_count st
           = local_search rnd clauses max_flips (Suc flip_count) st'
    \<and> (case select_flip clauses (best_assignment st) (max_satisfied_count st)
               (clauses ! target_clause_idx) of
          None \<Rightarrow> st' = st
        | Some (var, val, net_gain, multiset_cost) \<Rightarrow>
            net_gain = int (count_satisfied_clauses clauses
                              (AList.update var val (best_assignment st)))
                       - int (max_satisfied_count st)
            \<and> (if net_gain > 0 \<or>
                    (net_gain = 0
                     \<and> \<not> is_clause_satisfied (clauses ! target_clause_idx) (best_assignment st)
                     \<and> is_clause_satisfied (clauses ! target_clause_idx)
                          (AList.update var val (best_assignment st)))
                then best_assignment st' = AList.update var val (best_assignment st)
                     \<and> max_satisfied_count st'
                         = count_satisfied_clauses clauses
                             (AList.update var val (best_assignment st))
                     \<and> second_pass_steps st' = second_pass_steps st
                         @ [(var, val, flip_reason var val target_clause_idx net_gain multiset_cost)]
                else st' = st))
    \<and> Suc flip_count \<le> fst (local_search rnd clauses max_flips flip_count st)
    \<and> snd (local_search rnd clauses max_flips flip_count st)
        = run_iterations rnd clauses (Suc flip_count)
            (fst (local_search rnd clauses max_flips flip_count st) - Suc flip_count) st'"
proof -
  have loop: "local_search rnd clauses max_flips flip_count st
           = local_search rnd clauses max_flips (Suc flip_count) st'"
    using assms(1,2,4) by (subst local_search.simps) simp
  have rule: "(case select_flip clauses (best_assignment st) (max_satisfied_count st)
               (clauses ! target_clause_idx) of
          None \<Rightarrow> st' = st
        | Some (var, val, net_gain, multiset_cost) \<Rightarrow>
            net_gain = int (count_satisfied_clauses clauses
                              (AList.update var val (best_assignment st)))
                       - int (max_satisfied_count st)
            \<and> (if net_gain > 0 \<or>
                    (net_gain = 0
                     \<and> \<not> is_clause_satisfied (clauses ! target_clause_idx) (best_assignment st)
                     \<and> is_clause_satisfied (clauses ! target_clause_idx)
                          (AList.update var val (best_assignment st)))
                then best_assignment st' = AList.update var val (best_assignment st)
                     \<and> max_satisfied_count st'
                         = count_satisfied_clauses clauses
                             (AList.update var val (best_assignment st))
                     \<and> second_pass_steps st' = second_pass_steps st
                         @ [(var, val, flip_reason var val target_clause_idx net_gain multiset_cost)]
                else st' = st))"
  proof (cases "select_flip clauses (best_assignment st) (max_satisfied_count st)
               (clauses ! target_clause_idx)")
    case None
    then show ?thesis using assms(3,4) by (simp add: refine_iteration_def)
  next
    case (Some cand)
    obtain var val g cost where c: "cand = (var, val, g, cost)" by (cases cand) auto
    note g = select_flip_net_gain[OF Some[unfolded c]]
    show ?thesis
      using Some assms(3,4) g
      by (simp add: c refine_iteration_def accepts_def apply_flip_def Let_def)
  qed
  from assms(1) have le: "Suc flip_count \<le> max_flips" by simp
  note it = local_search_iterates[OF le, of rnd clauses st']
  have used: "Suc flip_count \<le> fst (local_search rnd clauses max_flips flip_count st)"
    unfolding loop using it by blast
  have rest: "snd (local_search rnd clauses max_flips flip_count st)
        = run_iterations rnd clauses (Suc flip_count)
            (fst (local_search rnd clauses max_flips flip_count st) - Suc flip_count) st'"
    unfolding loop using it by blast
  from loop rule used rest show ?thesis by (intro conjI)
qed


theorem acceptance_rule_witness:
  "unsatisfied_clause_indices [[1], [- 1]] (best_assignment (initial_state [[1], [- 1]])) = [1]
   \<and> select_flip [[1], [- 1]] (best_assignment (initial_state [[1], [- 1]]))
        (max_satisfied_count (initial_state [[1], [- 1]])) [- 1] = Some (1, False, 0, 1)
   \<and> best_assignment (refine_iteration (first_choice 0) [[1], [- 1]] [1] (initial_state [[1], [- 1]]))
        = [(1, False)]
   \<and> local_search first_choice [[1], [- 1]] 5 0 (initial_state [[1], [- 1]])
        = local_search first_choice [[1], [- 1]] 5 (Suc 0)
            (refine_iteration (first_choice 0) [[1], [- 1]] [1] (initial_state [[1], [- 1]]))
   \<and> unsatisfied_clause_indices [[1], [1], [- 1]]
        (best_assignment (initial_state [[1], [1], [- 1]])) = [2]
   \<and> select_flip [[1], [1], [- 1]] (best_assignment (initial_state [[1], [1], [- 1]]))
        (max_satisfied_count (initial_state [[1], [1], [- 1]])) [- 1] = Some (1, False, - 1, 2)
   \<and> refine_iteration (first_choice 0) [[1], [1], [- 1]] [2] (initial_state [[1], [1], [- 1]])
        = initial_state [[1], [1], [- 1]]
   \<and> Suc 0 \<le> fst (local_search first_choice [[1], [- 1]] 5 0 (initial_state [[1], [- 1]]))
   \<and> fst (local_search first_choice [[1], [- 1]] 5 0 (initial_state [[1], [- 1]])) = 5
   \<and> snd (local_search first_choice [[1], [- 1]] 5 0 (initial_state [[1], [- 1]]))
        = run_iterations first_choice [[1], [- 1]] (Suc 0)
            (fst (local_search first_choice [[1], [- 1]] 5 0 (initial_state [[1], [- 1]])) - Suc 0)
            (refine_iteration (first_choice 0) [[1], [- 1]] [1] (initial_state [[1], [- 1]]))
   \<and> best_assignment (snd (local_search first_choice [[1], [- 1]] 5 0 (initial_state [[1], [- 1]])))
        = [(1, False)]"
proof -
  let ?cl = "[[1], [- 1 :: int]]"
  let ?cl2 = "[[1], [1], [- 1 :: int]]"
  have u: "unsatisfied_clause_indices ?cl (best_assignment (initial_state ?cl)) = [1]"
    by code_simp
  have b: "best_assignment (initial_state ?cl) = [(1, True)]" by code_simp
  have i: "random_choice (first_choice 0) [1] = 1" by code_simp
  have s: "select_flip ?cl (best_assignment (initial_state ?cl))
        (max_satisfied_count (initial_state ?cl)) [- 1] = Some (1, False, 0, 1)"
    by code_simp
  have u2: "unsatisfied_clause_indices ?cl2 (best_assignment (initial_state ?cl2)) = [2]"
    by code_simp
  have s2: "select_flip ?cl2 (best_assignment (initial_state ?cl2))
        (max_satisfied_count (initial_state ?cl2)) [- 1] = Some (1, False, - 1, 2)"
    by code_simp
  have h1: "(0 :: nat) < 5" by simp
  have h2: "unsatisfied_clause_indices ?cl (best_assignment (initial_state ?cl)) \<noteq> []"
    by (simp add: u)
  have h3: "1 = random_choice (first_choice 0)
                  (unsatisfied_clause_indices ?cl (best_assignment (initial_state ?cl)))"
    by (simp add: u random_choice_def)
  have c: "(0 :: int) < 0 \<or>
           ((0 :: int) = 0 \<and> \<not> is_clause_satisfied [- 1] (best_assignment (initial_state ?cl))
            \<and> is_clause_satisfied [- 1] (AList.update 1 False (best_assignment (initial_state ?cl))))"
    by (simp add: b literal_true_def)
  have up: "AList.update 1 False (best_assignment (initial_state ?cl)) = [(1, False)]"
    by (simp add: b)
  have n: "?cl ! 1 = [- 1]" by simp
  note t1 = acceptance_rule[where rnd = first_choice and flip_count = 0, OF h1 h2 h3 refl,
      unfolded u n s option.case prod.case]
  have r1: "local_search first_choice ?cl 5 0 (initial_state ?cl)
           = local_search first_choice ?cl 5 (Suc 0)
               (refine_iteration (first_choice 0) ?cl [1] (initial_state ?cl))
          \<and> best_assignment (refine_iteration (first_choice 0) ?cl [1] (initial_state ?cl))
              = [(1, False)]"
    using t1 c unfolding up by metis
  have k2: "2 = random_choice (first_choice 0)
                  (unsatisfied_clause_indices ?cl2 (best_assignment (initial_state ?cl2)))"
    by (simp add: u2 random_choice_def)
  have g2: "unsatisfied_clause_indices ?cl2 (best_assignment (initial_state ?cl2)) \<noteq> []"
    by (simp add: u2)
  have n2: "?cl2 ! 2 = [- 1]" by simp
  note t2 = acceptance_rule[where rnd = first_choice and flip_count = 0, OF h1 g2 k2 refl,
      unfolded u2 n2 s2 option.case prod.case]
  have c2: "\<not> ((0 :: int) < - 1 \<or>
           ((- 1 :: int) = 0 \<and> \<not> is_clause_satisfied [- 1] (best_assignment (initial_state ?cl2))
            \<and> is_clause_satisfied [- 1] (AList.update 1 False (best_assignment (initial_state ?cl2)))))"
    by simp
  have r2: "refine_iteration (first_choice 0) ?cl2 [2] (initial_state ?cl2) = initial_state ?cl2"
    using t2 c2 by metis
  have r3: "Suc 0 \<le> fst (local_search first_choice ?cl 5 0 (initial_state ?cl))"
    using t1 by metis
  have r4: "snd (local_search first_choice ?cl 5 0 (initial_state ?cl))
        = run_iterations first_choice ?cl (Suc 0)
            (fst (local_search first_choice ?cl 5 0 (initial_state ?cl)) - Suc 0)
            (refine_iteration (first_choice 0) ?cl [1] (initial_state ?cl))"
    using t1 by metis
  have v: "fst (local_search first_choice ?cl 5 0 (initial_state ?cl)) = 5"
    "best_assignment (snd (local_search first_choice ?cl 5 0 (initial_state ?cl))) = [(1, False)]"
    by code_simp+
  from u s r1 u2 s2 r2 r3 r4 v show ?thesis by blast
qed

section \<open>The refiner: choice of the flip candidate\<close>

lemma consider_candidate_Some:
  "consider_candidate (Some b) c =
     (if net_gain_of c > net_gain_of b
         \<or> (net_gain_of c = net_gain_of b \<and> multiset_cost_of c < multiset_cost_of b)
      then Some c else Some b)"
  by (cases b; cases c) (auto simp: consider_candidate_def net_gain_of_def multiset_cost_of_def)

lemma foldl_consider_candidate_best:
  assumes "cands \<noteq> []"
  shows "\<exists>i < length cands.
           foldl consider_candidate None cands = Some (cands ! i)
           \<and> (\<forall>j < length cands.
                 net_gain_of (cands ! j) \<le> net_gain_of (cands ! i)
                 \<and> (net_gain_of (cands ! j) = net_gain_of (cands ! i)
                      \<longrightarrow> multiset_cost_of (cands ! i) \<le> multiset_cost_of (cands ! j))
                 \<and> (j < i \<longrightarrow>
                        net_gain_of (cands ! j) < net_gain_of (cands ! i)
                        \<or> multiset_cost_of (cands ! i) < multiset_cost_of (cands ! j)))"
  using assms
proof (induction cands rule: rev_nonempty_induct)
  case (single x)
  show ?case by (simp add: consider_candidate_def)
next
  case (snoc x xs)
  then obtain i where i: "i < length xs"
    and f: "foldl consider_candidate None xs = Some (xs ! i)"
    and o: "\<forall>j < length xs.
                 net_gain_of (xs ! j) \<le> net_gain_of (xs ! i)
                 \<and> (net_gain_of (xs ! j) = net_gain_of (xs ! i)
                      \<longrightarrow> multiset_cost_of (xs ! i) \<le> multiset_cost_of (xs ! j))
                 \<and> (j < i \<longrightarrow>
                        net_gain_of (xs ! j) < net_gain_of (xs ! i)
                        \<or> multiset_cost_of (xs ! i) < multiset_cost_of (xs ! j))"
    by blast
  show ?case
  proof (cases "net_gain_of x > net_gain_of (xs ! i)
         \<or> (net_gain_of x = net_gain_of (xs ! i) \<and> multiset_cost_of x < multiset_cost_of (xs ! i))")
    case True
    have "foldl consider_candidate None (xs @ [x]) = Some ((xs @ [x]) ! length xs)"
      using True by (simp add: f consider_candidate_Some)
    moreover have "\<forall>j < length (xs @ [x]).
                 net_gain_of ((xs @ [x]) ! j) \<le> net_gain_of ((xs @ [x]) ! length xs)
                 \<and> (net_gain_of ((xs @ [x]) ! j) = net_gain_of ((xs @ [x]) ! length xs)
                      \<longrightarrow> multiset_cost_of ((xs @ [x]) ! length xs) \<le> multiset_cost_of ((xs @ [x]) ! j))
                 \<and> (j < length xs \<longrightarrow>
                        net_gain_of ((xs @ [x]) ! j) < net_gain_of ((xs @ [x]) ! length xs)
                        \<or> multiset_cost_of ((xs @ [x]) ! length xs) < multiset_cost_of ((xs @ [x]) ! j))"
    proof (intro allI impI)
      fix j assume "j < length (xs @ [x])"
      then consider "j < length xs" | "j = length xs" by fastforce
      then show "net_gain_of ((xs @ [x]) ! j) \<le> net_gain_of ((xs @ [x]) ! length xs)
                 \<and> (net_gain_of ((xs @ [x]) ! j) = net_gain_of ((xs @ [x]) ! length xs)
                      \<longrightarrow> multiset_cost_of ((xs @ [x]) ! length xs) \<le> multiset_cost_of ((xs @ [x]) ! j))
                 \<and> (j < length xs \<longrightarrow>
                        net_gain_of ((xs @ [x]) ! j) < net_gain_of ((xs @ [x]) ! length xs)
                        \<or> multiset_cost_of ((xs @ [x]) ! length xs) < multiset_cost_of ((xs @ [x]) ! j))"
      proof cases
        case 1
        with o True show ?thesis by (fastforce simp: nth_append)
      next
        case 2
        then show ?thesis by simp
      qed
    qed
    ultimately show ?thesis
      by (intro exI[of _ "length xs"]) simp
  next
    case False
    have "foldl consider_candidate None (xs @ [x]) = Some ((xs @ [x]) ! i)"
      using False i by (auto simp: f consider_candidate_Some nth_append)
    moreover have "\<forall>j < length (xs @ [x]).
                 net_gain_of ((xs @ [x]) ! j) \<le> net_gain_of ((xs @ [x]) ! i)
                 \<and> (net_gain_of ((xs @ [x]) ! j) = net_gain_of ((xs @ [x]) ! i)
                      \<longrightarrow> multiset_cost_of ((xs @ [x]) ! i) \<le> multiset_cost_of ((xs @ [x]) ! j))
                 \<and> (j < i \<longrightarrow>
                        net_gain_of ((xs @ [x]) ! j) < net_gain_of ((xs @ [x]) ! i)
                        \<or> multiset_cost_of ((xs @ [x]) ! i) < multiset_cost_of ((xs @ [x]) ! j))"
    proof (intro allI impI)
      fix j assume "j < length (xs @ [x])"
      then consider "j < length xs" | "j = length xs" by fastforce
      then show "net_gain_of ((xs @ [x]) ! j) \<le> net_gain_of ((xs @ [x]) ! i)
                 \<and> (net_gain_of ((xs @ [x]) ! j) = net_gain_of ((xs @ [x]) ! i)
                      \<longrightarrow> multiset_cost_of ((xs @ [x]) ! i) \<le> multiset_cost_of ((xs @ [x]) ! j))
                 \<and> (j < i \<longrightarrow>
                        net_gain_of ((xs @ [x]) ! j) < net_gain_of ((xs @ [x]) ! i)
                        \<or> multiset_cost_of ((xs @ [x]) ! i) < multiset_cost_of ((xs @ [x]) ! j))"
      proof cases
        case 1
        with o i show ?thesis by (simp add: nth_append)
      next
        case 2
        with False i show ?thesis by (auto simp: nth_append)
      qed
    qed
    ultimately show ?thesis using i
      by (intro exI[of _ i]) simp
  qed
qed

lemma length_filter_enumerate:
  "length (filter P (enumerate 0 xs)) = card {i. i < length xs \<and> P (i, xs ! i)}"
proof -
  have "length (filter P (enumerate 0 xs))
      = card {k. k < length (enumerate 0 xs) \<and> P (enumerate 0 xs ! k)}"
    by (rule length_filter_conv_card)
  also have "{k. k < length (enumerate 0 xs) \<and> P (enumerate 0 xs ! k)}
           = {i. i < length xs \<and> P (i, xs ! i)}"
    by (auto simp: nth_enumerate_eq)
  finally show ?thesis .
qed

lemma flip_multiset_cost_card:
  "flip_multiset_cost clauses a temp lit (get_literal_satisfaction_counts clauses a) =
     card {i. i < length clauses
            \<and> is_clause_satisfied (clauses ! i) a
            \<and> \<not> is_clause_satisfied (clauses ! i) temp
            \<and> (\<exists>l. lit = Some l \<and> l \<in> set (clauses ! i))
            \<and> length (filter (literal_true a) (clauses ! i)) = 1}"
proof -
  have "{i. i < length clauses \<and>
            (case (i, clauses ! i) of (i, c) \<Rightarrow>
               is_clause_satisfied c a \<and> \<not> is_clause_satisfied c temp
               \<and> (case lit of None \<Rightarrow> False | Some l \<Rightarrow> l \<in> set c)
               \<and> get_literal_satisfaction_counts clauses a ! i = 1)}
      = {i. i < length clauses
            \<and> is_clause_satisfied (clauses ! i) a
            \<and> \<not> is_clause_satisfied (clauses ! i) temp
            \<and> (\<exists>l. lit = Some l \<and> l \<in> set (clauses ! i))
            \<and> length (filter (literal_true a) (clauses ! i)) = 1}"
    by (auto simp: get_literal_satisfaction_counts_def split: option.splits)
  then show ?thesis
    unfolding flip_multiset_cost_def length_filter_enumerate by simp
qed

lemma evaluate_candidate_eq:
  "evaluate_candidate clauses a cur (get_literal_satisfaction_counts clauses a) l =
     (\<bar>l\<bar>, l > 0,
      int (count_satisfied_clauses clauses (AList.update \<bar>l\<bar> (l > 0) a)) - int cur,
      card {i. i < length clauses
            \<and> is_clause_satisfied (clauses ! i) a
            \<and> \<not> is_clause_satisfied (clauses ! i) (AList.update \<bar>l\<bar> (l > 0) a)
            \<and> (\<exists>original_val. map_of a \<bar>l\<bar> = Some original_val
                  \<and> (if original_val then \<bar>l\<bar> else - \<bar>l\<bar>) \<in> set (clauses ! i))
            \<and> length (filter (literal_true a) (clauses ! i)) = 1})"
proof -
  have "(\<exists>la. (case map_of a \<bar>l\<bar> of None \<Rightarrow> None
                 | Some v \<Rightarrow> Some (if v then \<bar>l\<bar> else - \<bar>l\<bar>)) = Some la \<and> la \<in> set c)
        \<longleftrightarrow> (\<exists>v. map_of a \<bar>l\<bar> = Some v \<and> (if v then \<bar>l\<bar> else - \<bar>l\<bar>) \<in> set c)" for c
    by (cases "map_of a \<bar>l\<bar>") auto
  then show ?thesis
    by (simp add: evaluate_candidate_def Let_def flip_multiset_cost_card)
qed

text \<open>
  Claim C3. In a refiner iteration whose cached count is current, the candidate of a
  literal \<open>l\<close> of the target clause is the variable \<open>\<bar>l\<bar>\<close> with the value \<open>l > 0\<close>, its net
  gain is the satisfied-clause count after the flip minus the current count, and its
  multiset cost is the number of clauses that are satisfied now, unsatisfied after the
  flip, contain the literal that is true for the variable's present value, and have
  exactly one true literal now. The selected candidate is that of a literal at some
  position \<open>i\<close> of the target clause such that no candidate has a larger net gain, no
  candidate of equal net gain has a smaller cost, and every candidate at an earlier
  position has a smaller net gain or a larger cost.
\<close>

theorem select_flip_best:
  assumes "target_clause \<noteq> []" and "count_cached clauses st"
  shows "(\<forall>l. candidate_of clauses st l =
            (\<bar>l\<bar>, l > 0,
             int (count_satisfied_clauses clauses (AList.update \<bar>l\<bar> (l > 0) (best_assignment st)))
               - int (count_satisfied_clauses clauses (best_assignment st)),
             card {i. i < length clauses
                   \<and> is_clause_satisfied (clauses ! i) (best_assignment st)
                   \<and> \<not> is_clause_satisfied (clauses ! i)
                         (AList.update \<bar>l\<bar> (l > 0) (best_assignment st))
                   \<and> (\<exists>original_val. map_of (best_assignment st) \<bar>l\<bar> = Some original_val
                         \<and> (if original_val then \<bar>l\<bar> else - \<bar>l\<bar>) \<in> set (clauses ! i))
                   \<and> length (filter (literal_true (best_assignment st)) (clauses ! i)) = 1}))
    \<and> (\<exists>i < length target_clause.
          select_flip clauses (best_assignment st) (max_satisfied_count st) target_clause
            = Some (candidate_of clauses st (target_clause ! i))
          \<and> (\<forall>j < length target_clause.
                net_gain_of (candidate_of clauses st (target_clause ! j))
                  \<le> net_gain_of (candidate_of clauses st (target_clause ! i))
                \<and> (net_gain_of (candidate_of clauses st (target_clause ! j))
                     = net_gain_of (candidate_of clauses st (target_clause ! i))
                   \<longrightarrow> multiset_cost_of (candidate_of clauses st (target_clause ! i))
                       \<le> multiset_cost_of (candidate_of clauses st (target_clause ! j)))
                \<and> (j < i \<longrightarrow>
                     net_gain_of (candidate_of clauses st (target_clause ! j))
                       < net_gain_of (candidate_of clauses st (target_clause ! i))
                     \<or> multiset_cost_of (candidate_of clauses st (target_clause ! i))
                       < multiset_cost_of (candidate_of clauses st (target_clause ! j)))))"
proof (rule conjI)
  show "\<forall>l. candidate_of clauses st l =
            (\<bar>l\<bar>, l > 0,
             int (count_satisfied_clauses clauses (AList.update \<bar>l\<bar> (l > 0) (best_assignment st)))
               - int (count_satisfied_clauses clauses (best_assignment st)),
             card {i. i < length clauses
                   \<and> is_clause_satisfied (clauses ! i) (best_assignment st)
                   \<and> \<not> is_clause_satisfied (clauses ! i)
                         (AList.update \<bar>l\<bar> (l > 0) (best_assignment st))
                   \<and> (\<exists>original_val. map_of (best_assignment st) \<bar>l\<bar> = Some original_val
                         \<and> (if original_val then \<bar>l\<bar> else - \<bar>l\<bar>) \<in> set (clauses ! i))
                   \<and> length (filter (literal_true (best_assignment st)) (clauses ! i)) = 1})"
    using assms(2) unfolding candidate_of_def evaluate_candidate_eq count_cached_def by simp
next
  have ne: "map (candidate_of clauses st) target_clause \<noteq> []" using assms(1) by simp
  have sel: "select_flip clauses (best_assignment st) (max_satisfied_count st) target_clause
           = foldl consider_candidate None (map (candidate_of clauses st) target_clause)"
    unfolding select_flip_foldl candidate_of_def ..
  from foldl_consider_candidate_best[OF ne]
  show "\<exists>i < length target_clause.
          select_flip clauses (best_assignment st) (max_satisfied_count st) target_clause
            = Some (candidate_of clauses st (target_clause ! i))
          \<and> (\<forall>j < length target_clause.
                net_gain_of (candidate_of clauses st (target_clause ! j))
                  \<le> net_gain_of (candidate_of clauses st (target_clause ! i))
                \<and> (net_gain_of (candidate_of clauses st (target_clause ! j))
                     = net_gain_of (candidate_of clauses st (target_clause ! i))
                   \<longrightarrow> multiset_cost_of (candidate_of clauses st (target_clause ! i))
                       \<le> multiset_cost_of (candidate_of clauses st (target_clause ! j)))
                \<and> (j < i \<longrightarrow>
                     net_gain_of (candidate_of clauses st (target_clause ! j))
                       < net_gain_of (candidate_of clauses st (target_clause ! i))
                     \<or> multiset_cost_of (candidate_of clauses st (target_clause ! i))
                       < multiset_cost_of (candidate_of clauses st (target_clause ! j))))"
    unfolding sel by (simp cong: conj_cong)
qed


theorem select_flip_best_witness:
  "[- 1, - 2 :: int] \<noteq> []
   \<and> count_cached [[- 1, - 2], [1], [2, 2], [1, 3]] (initial_state [[- 1, - 2], [1], [2, 2], [1, 3]])
   \<and> candidate_of [[- 1, - 2], [1], [2, 2], [1, 3]]
        (initial_state [[- 1, - 2], [1], [2, 2], [1, 3]]) (- 1) = (1, False, 0, 1)
   \<and> candidate_of [[- 1, - 2], [1], [2, 2], [1, 3]]
        (initial_state [[- 1, - 2], [1], [2, 2], [1, 3]]) (- 2) = (2, False, 0, 0)
   \<and> select_flip [[- 1, - 2], [1], [2, 2], [1, 3]]
        (best_assignment (initial_state [[- 1, - 2], [1], [2, 2], [1, 3]]))
        (max_satisfied_count (initial_state [[- 1, - 2], [1], [2, 2], [1, 3]])) [- 1, - 2]
       = Some (2, False, 0, 0)
   \<and> (\<exists>i < length [- 1, - 2 :: int].
          select_flip [[- 1, - 2], [1], [2, 2], [1, 3]]
            (best_assignment (initial_state [[- 1, - 2], [1], [2, 2], [1, 3]]))
            (max_satisfied_count (initial_state [[- 1, - 2], [1], [2, 2], [1, 3]])) [- 1, - 2]
          = Some (candidate_of [[- 1, - 2], [1], [2, 2], [1, 3]]
                    (initial_state [[- 1, - 2], [1], [2, 2], [1, 3]]) ([- 1, - 2] ! i)))"
proof -
  let ?cl = "[[- 1, - 2], [1], [2, 2], [1, 3 :: int]]"
  have h1: "[- 1, - 2 :: int] \<noteq> []" by simp
  have h2: "count_cached ?cl (initial_state ?cl)" by (rule initial_state_cached)
  have c1: "candidate_of ?cl (initial_state ?cl) (- 1) = (1, False, 0, 1)" by code_simp
  have c2: "candidate_of ?cl (initial_state ?cl) (- 2) = (2, False, 0, 0)" by code_simp
  have s: "select_flip ?cl (best_assignment (initial_state ?cl))
             (max_satisfied_count (initial_state ?cl)) [- 1, - 2] = Some (2, False, 0, 0)"
    by code_simp
  from select_flip_best[OF h1 h2]
  have "\<exists>i < length [- 1, - 2 :: int].
          select_flip ?cl (best_assignment (initial_state ?cl))
            (max_satisfied_count (initial_state ?cl)) [- 1, - 2]
          = Some (candidate_of ?cl (initial_state ?cl) ([- 1, - 2] ! i))"
    by blast
  with h1 h2 c1 c2 s show ?thesis by blast
qed

section \<open>The construction heuristic\<close>

lemma fold_insert_index:
  "fold (\<lambda>literal m'. m'(literal := insert i (m' literal))) clause m =
     (\<lambda>l. if l \<in> set clause then insert i (m l) else m l)"
  by (induction clause arbitrary: m) (auto simp: fun_eq_iff)

lemma fold_occurrences:
  "fold (\<lambda>(i, clause) m. fold (\<lambda>literal m'. m'(literal := insert i (m' literal))) clause m)
     (enumerate n clauses) m l =
   m l \<union> {i. n \<le> i \<and> i < n + length clauses \<and> l \<in> set (clauses ! (i - n))}"
proof (induction clauses arbitrary: n m)
  case Nil
  then show ?case by auto
next
  case (Cons c cs)
  have "{i. n \<le> i \<and> i < n + length (c # cs) \<and> l \<in> set ((c # cs) ! (i - n))}
      = (if l \<in> set c then {n} else {})
        \<union> {i. Suc n \<le> i \<and> i < Suc n + length cs \<and> l \<in> set (cs ! (i - Suc n))}"
  proof (intro set_eqI iffI)
    fix i assume "i \<in> {i. n \<le> i \<and> i < n + length (c # cs) \<and> l \<in> set ((c # cs) ! (i - n))}"
    then show "i \<in> (if l \<in> set c then {n} else {})
        \<union> {i. Suc n \<le> i \<and> i < Suc n + length cs \<and> l \<in> set (cs ! (i - Suc n))}"
      by (cases "i = n") (auto simp: nth_Cons' Suc_diff_Suc split: if_splits)
  next
    fix i assume "i \<in> (if l \<in> set c then {n} else {})
        \<union> {i. Suc n \<le> i \<and> i < Suc n + length cs \<and> l \<in> set (cs ! (i - Suc n))}"
    then show "i \<in> {i. n \<le> i \<and> i < n + length (c # cs) \<and> l \<in> set ((c # cs) ! (i - n))}"
      by (cases "i = n") (auto simp: nth_Cons' split: if_splits)
  qed
  note split = this
  let ?m' = "\<lambda>l. if l \<in> set c then insert n (m l) else m l"
  have "fold (\<lambda>(i, clause) m. fold (\<lambda>literal m'. m'(literal := insert i (m' literal))) clause m)
          (enumerate n (c # cs)) m l
      = fold (\<lambda>(i, clause) m. fold (\<lambda>literal m'. m'(literal := insert i (m' literal))) clause m)
          (enumerate (Suc n) cs) ?m' l"
    by (simp add: fold_insert_index)
  also have "\<dots> = ?m' l
      \<union> {i. Suc n \<le> i \<and> i < Suc n + length cs \<and> l \<in> set (cs ! (i - Suc n))}"
    by (rule Cons.IH)
  also have "\<dots> = m l \<union> ((if l \<in> set c then {n} else {})
      \<union> {i. Suc n \<le> i \<and> i < Suc n + length cs \<and> l \<in> set (cs ! (i - Suc n))})"
    by (cases "l \<in> set c") simp_all
  finally show ?case unfolding split .
qed

lemma variable_occurrence_map_eq:
  "variable_occurrence_map clauses l = {i. i < length clauses \<and> l \<in> set (clauses ! i)}"
  unfolding variable_occurrence_map_def fold_occurrences by simp

lemma occurrence_key_eq:
  "occurrence_key (variable_occurrence_map clauses) v =
     card {i. i < length clauses \<and> v \<in> set (clauses ! i)}
     + card {i. i < length clauses \<and> - v \<in> set (clauses ! i)}"
  by (simp add: occurrence_key_def variable_occurrence_map_eq)

lemma all_unique_vars_set: "set (all_unique_vars clauses) = abs ` (\<Union>c \<in> set clauses. set c)"
  by (auto simp: all_unique_vars_def)

lemma all_unique_vars_sorted: "sorted_wrt (<) (all_unique_vars clauses)"
  by (simp add: all_unique_vars_def strict_sorted_iff)

lemma sorted_wrt_tiebreak:
  fixes f :: "'a :: linorder \<Rightarrow> 'b :: linorder"
  assumes "sorted (map f ys)" and "\<And>k. sorted_wrt (<) (filter (\<lambda>y. f y = k) ys)"
  shows "sorted_wrt (\<lambda>a b. f a < f b \<or> (f a = f b \<and> a < b)) ys"
  using assms
proof (induction ys)
  case Nil
  then show ?case by simp
next
  case (Cons y ys)
  have tl: "sorted_wrt (<) (filter (\<lambda>z. f z = k) ys)" for k
    using Cons.prems(2)[of k] by (cases "f y = k") simp_all
  have hd: "f y < f z \<or> (f y = f z \<and> y < z)" if "z \<in> set ys" for z
  proof (cases "f y = f z")
    case True
    with Cons.prems(2)[of "f y"] that show ?thesis by auto
  next
    case False
    with Cons.prems(1) that show ?thesis by fastforce
  qed
  from Cons.IH[OF _ tl] Cons.prems(1) hd show ?case by simp
qed

lemma sort_key_tiebreak:
  fixes f :: "'a :: linorder \<Rightarrow> 'b :: linorder"
  assumes "sorted_wrt (<) xs"
  shows "sorted_wrt (\<lambda>a b. f a < f b \<or> (f a = f b \<and> a < b)) (sort_key f xs)"
proof (rule sorted_wrt_tiebreak)
  show "sorted (map f (sort_key f xs))" by (rule sorted_sort_key)
next
  fix k
  show "sorted_wrt (<) (filter (\<lambda>y. f y = k) (sort_key f xs))"
    unfolding sort_key_stable using assms by (rule sorted_wrt_filter)
qed

lemma sorted_variables_by_occurrence_set:
  "set (sorted_variables_by_occurrence clauses) = abs ` (\<Union>c \<in> set clauses. set c)"
  by (simp add: sorted_variables_by_occurrence_def all_unique_vars_set)

lemma sorted_variables_by_occurrence_distinct:
  "distinct (sorted_variables_by_occurrence clauses)"
  using all_unique_vars_sorted[of clauses]
  by (simp add: sorted_variables_by_occurrence_def strict_sorted_iff)

lemma sorted_variables_by_occurrence_order:
  "sorted_wrt (\<lambda>a b. occurrence_key (variable_occurrence_map clauses) a
                        > occurrence_key (variable_occurrence_map clauses) b
                     \<or> (occurrence_key (variable_occurrence_map clauses) a
                          = occurrence_key (variable_occurrence_map clauses) b \<and> a < b))
     (sorted_variables_by_occurrence clauses)"
  using sort_key_tiebreak[OF all_unique_vars_sorted,
      of "\<lambda>x. - int (occurrence_key (variable_occurrence_map clauses) x)" clauses]
  by (simp add: sorted_variables_by_occurrence_def)

lemma update_fresh: "map_of al k = None \<Longrightarrow> AList.update k v al = al @ [(k, v)]"
  by (induction al) (auto split: if_splits)

lemma greedy_assign_fresh:
  "map_of a v = None \<Longrightarrow>
   greedy_assign m v (a, s) = (a @ [(v, greedy_value m v)], s @ [(v, greedy_value m v, greedy_reason m v)])"
  by (simp add: greedy_assign_def Let_def update_fresh greedy_value_def greedy_reason_def)

lemma fold_greedy_assign:
  "distinct vs \<Longrightarrow> \<forall>v \<in> set vs. map_of a v = None \<Longrightarrow>
   fold (greedy_assign m) vs (a, s) =
     (a @ map (\<lambda>v. (v, greedy_value m v)) vs,
      s @ map (\<lambda>v. (v, greedy_value m v, greedy_reason m v)) vs)"
proof (induction vs arbitrary: a s)
  case Nil
  then show ?case by simp
next
  case (Cons v vs)
  have fresh: "\<forall>w \<in> set vs. map_of (a @ [(v, greedy_value m v)]) w = None"
    using Cons.prems by (auto simp: map_add_def split: option.splits)
  from Cons.prems have "distinct vs" "map_of a v = None" by simp_all
  then show ?case
    by (simp add: greedy_assign_fresh Cons.IH[OF \<open>distinct vs\<close> fresh])
qed

lemma greedy_first_pass_eq:
  "greedy_first_pass clauses =
     (map (\<lambda>v. (v, greedy_value (variable_occurrence_map clauses) v))
        (sorted_variables_by_occurrence clauses),
      map (\<lambda>v. (v, greedy_value (variable_occurrence_map clauses) v,
                   greedy_reason (variable_occurrence_map clauses) v))
        (sorted_variables_by_occurrence clauses))"
  unfolding greedy_first_pass_def
  using fold_greedy_assign[OF sorted_variables_by_occurrence_distinct, of clauses "[]"]
  by simp



text \<open>
  Claim C6. The construction heuristic processes the distinct variables of the formula
  (the absolute values of its literals, each once) in descending order of the total
  occurrence count, the number of clauses containing \<open>v\<close> plus the number of clauses
  containing \<open>- v\<close>; variables of equal total count are processed in ascending order of
  their ids. The decision records and the keys of the assignment are in that order.
\<close>

theorem construction_order:
  "map fst (snd (greedy_first_pass clauses)) = sorted_variables_by_occurrence clauses
   \<and> map fst (fst (greedy_first_pass clauses)) = sorted_variables_by_occurrence clauses
   \<and> distinct (sorted_variables_by_occurrence clauses)
   \<and> set (sorted_variables_by_occurrence clauses) = abs ` (\<Union>c \<in> set clauses. set c)
   \<and> (\<forall>v. occurrence_key (variable_occurrence_map clauses) v =
            card {i. i < length clauses \<and> v \<in> set (clauses ! i)}
            + card {i. i < length clauses \<and> - v \<in> set (clauses ! i)})
   \<and> (\<forall>i j. i < j \<and> j < length (sorted_variables_by_occurrence clauses) \<longrightarrow>
          occurrence_key (variable_occurrence_map clauses) (sorted_variables_by_occurrence clauses ! i)
            > occurrence_key (variable_occurrence_map clauses) (sorted_variables_by_occurrence clauses ! j)
          \<or> (occurrence_key (variable_occurrence_map clauses) (sorted_variables_by_occurrence clauses ! i)
               = occurrence_key (variable_occurrence_map clauses) (sorted_variables_by_occurrence clauses ! j)
              \<and> sorted_variables_by_occurrence clauses ! i < sorted_variables_by_occurrence clauses ! j))"
proof -
  have a: "map fst (snd (greedy_first_pass clauses)) = sorted_variables_by_occurrence clauses"
    "map fst (fst (greedy_first_pass clauses)) = sorted_variables_by_occurrence clauses"
    by (simp_all add: greedy_first_pass_eq comp_def)
  have b: "\<forall>i j. i < j \<and> j < length (sorted_variables_by_occurrence clauses) \<longrightarrow>
          occurrence_key (variable_occurrence_map clauses) (sorted_variables_by_occurrence clauses ! i)
            > occurrence_key (variable_occurrence_map clauses) (sorted_variables_by_occurrence clauses ! j)
          \<or> (occurrence_key (variable_occurrence_map clauses) (sorted_variables_by_occurrence clauses ! i)
               = occurrence_key (variable_occurrence_map clauses) (sorted_variables_by_occurrence clauses ! j)
              \<and> sorted_variables_by_occurrence clauses ! i < sorted_variables_by_occurrence clauses ! j)"
    using sorted_variables_by_occurrence_order[of clauses, unfolded sorted_wrt_iff_nth_less]
    by blast
  from a b sorted_variables_by_occurrence_distinct sorted_variables_by_occurrence_set
    occurrence_key_eq
  show ?thesis by blast
qed

theorem construction_order_witness:
  "sorted_variables_by_occurrence [[1, 2, - 3], [- 1, 2, 3], [1, - 2, - 3], [4, - 3, 5]]
     = [3, 1, 2, 4, 5]
   \<and> map fst (snd (greedy_first_pass [[1, 2, - 3], [- 1, 2, 3], [1, - 2, - 3], [4, - 3, 5]]))
     = [3, 1, 2, 4, 5]
   \<and> occurrence_key (variable_occurrence_map [[1, 2, - 3], [- 1, 2, 3], [1, - 2, - 3], [4, - 3, 5]]) 3 = 4
   \<and> occurrence_key (variable_occurrence_map [[1, 2, - 3], [- 1, 2, 3], [1, - 2, - 3], [4, - 3, 5]]) 1 = 3
   \<and> occurrence_key (variable_occurrence_map [[1, 2, - 3], [- 1, 2, 3], [1, - 2, - 3], [4, - 3, 5]]) 2 = 3
   \<and> (1 :: nat) < 2
   \<and> 2 < length (sorted_variables_by_occurrence [[1, 2, - 3], [- 1, 2, 3], [1, - 2, - 3], [4, - 3, 5]])"
proof -
  let ?cl = "[[1, 2, - 3], [- 1, 2, 3], [1, - 2, - 3], [4, - 3, 5 :: int]]"
  have o: "sorted_variables_by_occurrence ?cl = [3, 1, 2, 4, 5]" by code_simp
  have k: "occurrence_key (variable_occurrence_map ?cl) 3 = 4"
    "occurrence_key (variable_occurrence_map ?cl) 1 = 3"
    "occurrence_key (variable_occurrence_map ?cl) 2 = 3"
    by code_simp+
  from construction_order[of ?cl]
  have "map fst (snd (greedy_first_pass ?cl)) = sorted_variables_by_occurrence ?cl" by blast
  with o k show ?thesis by simp
qed

text \<open>
  The polarity rule on the variables other than 0. For the variable \<open>v \<noteq> 0\<close> at position
  \<open>k\<close> of the processing order, with \<open>pos\<close> and \<open>neg\<close> the numbers of clauses of the formula
  that contain \<open>v\<close> and \<open>- v\<close>: the assignment maps \<open>v\<close> to true if \<open>pos \<ge> neg\<close> and to false
  otherwise. The counts are those of the occurrence map, a function of the formula alone.
  There is one decision record per processed variable, and the record at position \<open>k\<close> is
  that of \<open>v\<close>, with a justification that cites both counts.
\<close>

theorem greedy_polarity:
  assumes "k < length (sorted_variables_by_occurrence clauses)"
    and "v = sorted_variables_by_occurrence clauses ! k"
    and "v \<noteq> 0"
    and "pos = card (variable_occurrence_map clauses v)"
    and "neg = card (variable_occurrence_map clauses (- v))"
  shows "(\<forall>l. variable_occurrence_map clauses l = {i. i < length clauses \<and> l \<in> set (clauses ! i)})
    \<and> map_of (fst (greedy_first_pass clauses)) v = Some (pos \<ge> neg)
    \<and> length (snd (greedy_first_pass clauses)) = length (sorted_variables_by_occurrence clauses)
    \<and> snd (greedy_first_pass clauses) ! k =
        (v, pos \<ge> neg,
         if pos \<ge> neg
         then ''Chose '' @ str_int v @ '' (positive) because it appears in '' @ str_nat pos
                @ '' clauses vs '' @ str_int (- v) @ '' in '' @ str_nat neg @ '' clauses''
         else ''Chose '' @ str_int (- v) @ '' (negative) because it appears in '' @ str_nat neg
                @ '' clauses vs '' @ str_int v @ '' in '' @ str_nat pos @ '' clauses'')"
proof -
  let ?m = "variable_occurrence_map clauses"
  have mem: "v \<in> set (sorted_variables_by_occurrence clauses)"
    using assms(1,2) by simp
  then have "0 \<le> v" unfolding sorted_variables_by_occurrence_set by auto
  with assms(3) have pos: "0 < v" by simp
  then have val: "greedy_value ?m v = (pos \<ge> neg)"
    by (simp add: greedy_value_def assms(4,5))
  have reason: "greedy_reason ?m v =
        (if pos \<ge> neg
         then ''Chose '' @ str_int v @ '' (positive) because it appears in '' @ str_nat pos
                @ '' clauses vs '' @ str_int (- v) @ '' in '' @ str_nat neg @ '' clauses''
         else ''Chose '' @ str_int (- v) @ '' (negative) because it appears in '' @ str_nat neg
                @ '' clauses vs '' @ str_int v @ '' in '' @ str_nat pos @ '' clauses'')"
    by (simp add: greedy_reason_def positive_reason_def negative_reason_def assms(4,5))
  have m: "map_of (fst (greedy_first_pass clauses)) v = Some (pos \<ge> neg)"
    using mem val by (simp add: greedy_first_pass_eq map_of_map_restrict)
  have l: "length (snd (greedy_first_pass clauses)) = length (sorted_variables_by_occurrence clauses)"
    by (simp add: greedy_first_pass_eq)
  have s: "snd (greedy_first_pass clauses) ! k = (v, greedy_value ?m v, greedy_reason ?m v)"
    using assms(1,2) by (simp add: greedy_first_pass_eq)
  from m l s variable_occurrence_map_eq show ?thesis unfolding val reason by blast
qed

theorem greedy_polarity_witness:
  "(0 :: nat) < length (sorted_variables_by_occurrence [[1, 2, - 3], [- 1, 2, 3], [1, - 2, - 3], [4, - 3, 5]])
   \<and> 3 = sorted_variables_by_occurrence [[1, 2, - 3], [- 1, 2, 3], [1, - 2, - 3], [4, - 3, 5]] ! 0
   \<and> (3 :: int) \<noteq> 0
   \<and> 1 = card (variable_occurrence_map [[1, 2, - 3], [- 1, 2, 3], [1, - 2, - 3], [4, - 3, 5]] 3)
   \<and> 3 = card (variable_occurrence_map [[1, 2, - 3], [- 1, 2, 3], [1, - 2, - 3], [4, - 3, 5]] (- 3))
   \<and> map_of (fst (greedy_first_pass [[1, 2, - 3], [- 1, 2, 3], [1, - 2, - 3], [4, - 3, 5]])) 3
       = Some False
   \<and> snd (greedy_first_pass [[1, 2, - 3], [- 1, 2, 3], [1, - 2, - 3], [4, - 3, 5]]) ! 0
       = (3, False, ''Chose -3 (negative) because it appears in 3 clauses vs 3 in 1 clauses'')"
proof -
  let ?cl = "[[1, 2, - 3], [- 1, 2, 3], [1, - 2, - 3], [4, - 3, 5 :: int]]"
  have h1: "(0 :: nat) < length (sorted_variables_by_occurrence ?cl)" by code_simp
  have h2: "3 = sorted_variables_by_occurrence ?cl ! 0" by code_simp
  have h3: "(3 :: int) \<noteq> 0" by simp
  have h4: "1 = card (variable_occurrence_map ?cl 3)" by code_simp
  have h5: "3 = card (variable_occurrence_map ?cl (- 3))" by code_simp
  have t: "''Chose '' @ str_int (- 3) @ '' (negative) because it appears in '' @ str_nat 3
                @ '' clauses vs '' @ str_int 3 @ '' in '' @ str_nat 1 @ '' clauses''
         = ''Chose -3 (negative) because it appears in 3 clauses vs 3 in 1 clauses''"
    by code_simp
  from greedy_polarity[OF h1 h2 h3 h4 h5]
  have "map_of (fst (greedy_first_pass ?cl)) 3 = Some False
      \<and> snd (greedy_first_pass ?cl) ! 0
         = (3, False, ''Chose -3 (negative) because it appears in 3 clauses vs 3 in 1 clauses'')"
    unfolding t[symmetric] by simp
  with h1 h2 h3 h4 h5 show ?thesis by blast
qed

text \<open>
  Claim C5 says that every variable the construction heuristic processes is assigned true
  when \<open>pos \<ge> neg\<close>. The loader drops only the last token of a clause line, so the line
  \<^verbatim>\<open>1 0 2 0\<close> gives the clause \<open>[1, 0, 2]\<close> and the heuristic processes the variable 0.
  Its two counts are equal, \<^verbatim>\<open>chosen_literal\<close> is \<open>0\<close> and the record reads
  \<^verbatim>\<open>(positive)\<close>, but the value stored and recorded is \<^verbatim>\<open>chosen_literal > 0\<close>, false.
\<close>

theorem greedy_polarity_zero:
  "parse_dimacs int_literal (Inr [''p cnf 2 1'', ''1 0 2 0'']) = (2, [[1, 0, 2]])
   \<and> sorted_variables_by_occurrence [[1, 0, 2]] = [0, 1, 2]
   \<and> card (variable_occurrence_map [[1, 0, 2]] 0) = 1
   \<and> card (variable_occurrence_map [[1, 0, 2]] (- 0)) = 1
   \<and> map_of (fst (greedy_first_pass [[1, 0, 2]])) 0 = Some False
   \<and> snd (greedy_first_pass [[1, 0, 2]]) ! 0
       = (0, False, ''Chose 0 (positive) because it appears in 1 clauses vs 0 in 1 clauses'')"
  by code_simp

text \<open>
  Claim C7 says that the construction's assignment has every variable of \<open>[1, N]\<close> as a
  key and has size \<open>N\<close>. The file with header \<^verbatim>\<open>p cnf 3 1\<close> and the one clause
  \<^verbatim>\<open>1 2 0\<close> declares three variables; the construction assigns the two that occur.
\<close>

theorem construction_not_total_counterexample:
  "parse_dimacs int_literal (Inr [''p cnf 3 1'', ''1 2 0'']) = (3, [[1, 2]])
   \<and> fst (greedy_first_pass [[1, 2]]) = [(1, True), (2, True)]
   \<and> map_of (fst (greedy_first_pass [[1, 2]])) 3 = None
   \<and> length (fst (greedy_first_pass [[1, 2]])) \<noteq> nat 3"
  by code_simp

text \<open>
  Claim C7, amended. The keys of the assignment produced by the construction heuristic
  are exactly the variables that occur in some clause (each once), whatever the declared
  count \<open>N\<close> is. For a formula with at least one clause in which the occurring variables
  are exactly \<open>1, ..., N\<close>, the assignment is total: every variable of \<open>[1, N]\<close> is a key
  and the size is \<open>N\<close>.
\<close>

theorem construction_keys:
  "fst ` set (fst (greedy_first_pass clauses)) = abs ` (\<Union>c \<in> set clauses. set c)
   \<and> distinct (map fst (fst (greedy_first_pass clauses)))
   \<and> length (fst (greedy_first_pass clauses)) = card (abs ` (\<Union>c \<in> set clauses. set c))
   \<and> (clauses \<noteq> [] \<and> abs ` (\<Union>c \<in> set clauses. set c) = {1..N} \<longrightarrow>
        (\<forall>v \<in> {1..N}. map_of (fst (greedy_first_pass clauses)) v \<noteq> None)
        \<and> length (fst (greedy_first_pass clauses)) = nat N)"
proof -
  have keys: "map fst (fst (greedy_first_pass clauses)) = sorted_variables_by_occurrence clauses"
    by (simp add: greedy_first_pass_eq comp_def)
  have d: "distinct (map fst (fst (greedy_first_pass clauses)))"
    unfolding keys by (rule sorted_variables_by_occurrence_distinct)
  have s: "fst ` set (fst (greedy_first_pass clauses)) = abs ` (\<Union>c \<in> set clauses. set c)"
    using keys sorted_variables_by_occurrence_set[of clauses] by (metis set_map)
  have "length (fst (greedy_first_pass clauses)) = length (map fst (fst (greedy_first_pass clauses)))"
    by simp
  also have "\<dots> = card (set (map fst (fst (greedy_first_pass clauses))))"
    using d by (simp only: distinct_card)
  also have "\<dots> = card (abs ` (\<Union>c \<in> set clauses. set c))"
    using s by simp
  finally have l: "length (fst (greedy_first_pass clauses))
                     = card (abs ` (\<Union>c \<in> set clauses. set c))" .
  have t: "(\<forall>v \<in> {1..N}. map_of (fst (greedy_first_pass clauses)) v \<noteq> None)
        \<and> length (fst (greedy_first_pass clauses)) = nat N"
    if "abs ` (\<Union>c \<in> set clauses. set c) = {1..N}"
  proof -
    have "dom (map_of (fst (greedy_first_pass clauses))) = {1..N}"
      unfolding dom_map_of_conv_image_fst s that ..
    moreover have "length (fst (greedy_first_pass clauses)) = nat N"
      unfolding l that by simp
    ultimately show ?thesis by auto
  qed
  from s d l t show ?thesis by blast
qed

theorem construction_keys_witness:
  "[[1, 2], [- 2, 3 :: int]] \<noteq> []
   \<and> abs ` (\<Union>c \<in> set [[1, 2], [- 2, 3 :: int]]. set c) = {1..3}
   \<and> map_of (fst (greedy_first_pass [[1, 2], [- 2, 3]])) 3 \<noteq> None
   \<and> length (fst (greedy_first_pass [[1, 2], [- 2, 3]])) = nat 3"
proof -
  have h1: "[[1, 2], [- 2, 3 :: int]] \<noteq> []" by simp
  have "{1..3 :: int} = {1, 2, 3}" by auto
  then have h2: "abs ` (\<Union>c \<in> set [[1, 2], [- 2, 3 :: int]]. set c) = {1..3}" by auto
  have "(3 :: int) \<in> {1..3}" by simp
  with construction_keys[of "[[1, 2], [- 2, 3]]" 3] h1 h2 show ?thesis by blast
qed

section \<open>Unreadable and malformed input\<close>

text \<open>
  Claim C4 says that on an unreadable source or an unparsable line the solver reports
  satisfiable. For a missing file and for a header whose variable count is not a number,
  the loader returns the empty formula and the solver reports unsatisfiable.
\<close>

theorem unreadable_input_counterexample:
  "parse_dimacs int_literal (Inl FileNotFoundError) = (0, [])
   \<and> \<not> is_satisfiable (solve_3sat first_choice int_literal (Inl FileNotFoundError))
   \<and> parse_lines int_literal (0, []) [''p cnf x 1'', ''1 0''] = Inl ValueError
   \<and> parse_dimacs int_literal (Inr [''p cnf x 1'', ''1 0'']) = (0, [])
   \<and> \<not> is_satisfiable (solve_3sat first_choice int_literal (Inr [''p cnf x 1'', ''1 0'']))"
  by code_simp

text \<open>
  Claim C4, amended. When opening the source raises, or a header or clause line fails to
  parse, the loader returns the empty formula (\<open>N = 0\<close>, no clauses), and the solver
  reports not satisfiable with zero satisfied clauses. The failure is not distinguishable:
  the result is the one the solver returns for any readable source without clauses.
\<close>

theorem unreadable_input:
  assumes "(\<exists>e. file = Inl e)
           \<or> (\<exists>lines e. file = Inr lines \<and> parse_lines to_int (0, []) lines = Inl e)"
  shows "parse_dimacs to_int file = (0, [])
    \<and> \<not> is_satisfiable (solve_3sat rnd to_int file)
    \<and> satisfied_count (solve_3sat rnd to_int file) = 0
    \<and> (\<forall>rnd' readable n.
          parse_lines to_int (0, []) readable = Inr (n, []) \<longrightarrow>
          solve_3sat rnd to_int file = solve_3sat rnd' to_int (Inr readable))"
proof -
  have p: "parse_dimacs to_int file = (0, [])"
    using assms by (auto simp: parse_dimacs_def split: error.splits)
  have e: "solve_3sat rnd to_int file = solve_formula rnd (0, [])"
    by (simp add: solve_3sat_def p)
  have r: "solve_3sat rnd' to_int (Inr readable) = solve_formula rnd (0, [])"
    if "parse_lines to_int (0, []) readable = Inr (n, [])" for rnd' readable n
    using that by (simp add: solve_3sat_def parse_dimacs_def solve_formula_def)
  have v: "\<not> is_satisfiable (solve_formula rnd (0, []))"
    "satisfied_count (solve_formula rnd (0, [])) = 0"
    by (simp_all add: solve_formula_def)
  from p v r show ?thesis unfolding e by simp
qed

theorem unreadable_input_witness:
  "parse_lines int_literal (0, []) [''p cnf x 1'', ''1 0''] = Inl ValueError
   \<and> parse_lines int_literal (0, []) [''c no clause'', ''p cnf 3 0''] = Inr (3, [])
   \<and> \<not> is_satisfiable (solve_3sat first_choice int_literal (Inr [''p cnf x 1'', ''1 0'']))
   \<and> satisfied_count (solve_3sat first_choice int_literal (Inr [''p cnf x 1'', ''1 0''])) = 0
   \<and> solve_3sat first_choice int_literal (Inr [''p cnf x 1'', ''1 0''])
       = solve_3sat first_choice int_literal (Inr [''c no clause'', ''p cnf 3 0''])
   \<and> \<not> is_satisfiable (solve_3sat first_choice int_literal (Inl OSError))
   \<and> solve_3sat first_choice int_literal (Inl OSError)
       = solve_3sat first_choice int_literal (Inr [''c no clause'', ''p cnf 3 0''])"
proof -
  have h: "parse_lines int_literal (0, []) [''p cnf x 1'', ''1 0''] = Inl ValueError"
    by code_simp
  have g: "parse_lines int_literal (0, []) [''c no clause'', ''p cnf 3 0''] = Inr (3, [])"
    by code_simp
  have a: "(\<exists>e. (Inr [''p cnf x 1'', ''1 0''] :: error + string list) = Inl e)
           \<or> (\<exists>lines e. (Inr [''p cnf x 1'', ''1 0''] :: error + string list) = Inr lines
                 \<and> parse_lines int_literal (0, []) lines = Inl e)"
    using h by blast
  have b: "(\<exists>e. (Inl OSError :: error + string list) = Inl e)
           \<or> (\<exists>lines e. (Inl OSError :: error + string list) = Inr lines
                 \<and> parse_lines int_literal (0, []) lines = Inl e)"
    by blast
  from unreadable_input[OF a, of first_choice] unreadable_input[OF b, of first_choice] h g
  show ?thesis by blast
qed

end
